theory Spec2Isabelle
  imports Main "HOL-Library.Word" "HOL-Library.Sublist"
begin

section \<open>Data model\<close>

text \<open>
  Values that cross the RPC boundary as \<open>0x\<close>-prefixed hexadecimal strings are
  represented by what they denote: a \<open>HexNumber\<close> by the natural number it encodes
  (so \<open>BigInt(h)\<close> is the number itself and all arithmetic is unbounded), a
  \<open>HexString\<close> payload by its list of bytes.  Addresses, hashes and cursors stay
  strings.
\<close>

type_synonym address = string
type_synonym hex_number = nat
type_synonym byte = "8 word"
type_synonym cursor = string

record script =
  code_hash :: string
  hash_type :: string
  args :: string

record cell_output =
  capacity :: hex_number
  cell_lock :: script
  cell_type :: "script option"

record resolved_outpoint =
  out_point :: string
  output_cell :: cell_output
  output_data :: "byte list"

datatype script_type = Lock | Type

record search_filter =
  filter_script :: "script option"
  output_data_len_range :: "(string \<times> string) option"

record search_key =
  key_script :: script
  key_script_type :: script_type
  key_filter :: search_filter

record get_cells_request =
  search_key :: search_key
  after_cursor :: "cursor option"

record get_cells_response =
  objects :: "resolved_outpoint list"
  last_cursor :: cursor

record balance_error_info =
  err_lock :: script
  expected :: hex_number
  actual :: hex_number

datatype error =
    NoEnoughCkbError balance_error_info
  | NoEnoughUdtError balance_error_info
  | RecipientSameWithSenderError address
  | TransportError string

section \<open>Stream operators\<close>

text \<open>
  The rxjs operators of the pipelines, on the finite list of values that a stage has
  received.  \<open>scan\<close> emits every intermediate accumulator and never the seed;
  \<open>takeWhile\<close> with the inclusive flag also emits the first value that fails the
  predicate and completes there; \<open>lastValueFrom\<close> yields the last emitted value, or
  the default when nothing was emitted; \<open>reduce\<close> with a seed yields the final
  accumulator, which is the seed for an empty input.
\<close>

fun scan :: "('b \<Rightarrow> 'a \<Rightarrow> 'b) \<Rightarrow> 'b \<Rightarrow> 'a list \<Rightarrow> 'b list" where
  "scan f acc [] = []"
| "scan f acc (x # xs) = f acc x # scan f (f acc x) xs"

fun takeWhile_inclusive :: "('a \<Rightarrow> bool) \<Rightarrow> 'a list \<Rightarrow> 'a list" where
  "takeWhile_inclusive P [] = []"
| "takeWhile_inclusive P (x # xs) = (if P x then x # takeWhile_inclusive P xs else [x])"

definition takeWhile_completed :: "('a \<Rightarrow> bool) \<Rightarrow> 'a list \<Rightarrow> bool" where
  \<comment> \<open>the operator has met a value failing its predicate, so it has completed and
      unsubscribed from its source\<close>
  "takeWhile_completed P xs = list_ex (\<lambda>x. \<not> P x) xs"

definition lastValueFrom :: "'a list \<Rightarrow> 'a \<Rightarrow> 'a" where
  "lastValueFrom xs defaultValue = (if xs = [] then defaultValue else last xs)"

definition reduce :: "('b \<Rightarrow> 'a \<Rightarrow> 'b) \<Rightarrow> 'b \<Rightarrow> 'a list \<Rightarrow> 'b" where
  "reduce f seed xs = foldl f seed xs"

section \<open>Paging the indexer\<close>

text \<open>
  \<open>this.mercury.get_cells\<close> answers a request with a page or fails (the promise
  rejects, with a reason that is opaque here); the failure reaches the caller as a
  \<open>TransportError\<close>.  Every operation returns, next to its outcome, the exchanges with
  the indexer whose response reached the pipeline, in the order they happened, and the
  trace of every \<open>get_cells\<close> call: when each request was sent and when each response
  was received.
\<close>

type_synonym transport_failure = string

type_synonym mercury_client = "get_cells_request \<Rightarrow> transport_failure + get_cells_response"

type_synonym exchange = "get_cells_request \<times> (transport_failure + get_cells_response)"

datatype fetch_event =
    Sent get_cells_request
  | Received "transport_failure + get_cells_response"

record mercury_provider =
  get_cells :: mercury_client
  parseToScript :: "address \<Rightarrow> script"

text \<open>
  \<open>from(get_cells({search_key})).pipe(expand((res) => get_cells({search_key,
  after_cursor: res.last_cursor}), 1), takeWhile((res) => res.objects.length > 0))\<close>
  pulled by the rest of the pipeline.  The first request has no cursor.  \<open>expand\<close>
  hands each page it receives to the downstream and then calls its projection on that
  page, whatever the downstream did with it: the request for the next page, carrying
  the page's \<open>last_cursor\<close>, is sent in any case.  When the page was empty
  (\<open>takeWhile\<close> ends the stream) or completed the downstream (\<open>completed\<close>, a test
  on the pages delivered so far), the subscription is gone by then and the response
  to that last request is discarded; otherwise its response is the next page.  A
  rejected request fails the whole stream and nothing follows it.  The result is the
  list of pages delivered downstream; a source that never runs dry under a downstream
  that never completes is the value \<open>None\<close>.
\<close>

partial_function (option) expand_pages ::
  "mercury_client \<Rightarrow> search_key \<Rightarrow> (get_cells_response list \<Rightarrow> bool) \<Rightarrow> cursor option \<Rightarrow>
   exchange list \<Rightarrow> get_cells_response list \<Rightarrow> fetch_event list \<Rightarrow>
   ((error + get_cells_response list) \<times> exchange list \<times> fetch_event list) option"
where
  "expand_pages client key completed cursor log pages calls =
     (case client \<lparr>search_key = key, after_cursor = cursor\<rparr> of
        Inl e \<Rightarrow> Some (Inl (TransportError e),
                       log @ [(\<lparr>search_key = key, after_cursor = cursor\<rparr>, Inl e)],
                       calls @ [Sent \<lparr>search_key = key, after_cursor = cursor\<rparr>,
                                Received (Inl e)])
      | Inr res \<Rightarrow>
          if \<not> length (objects res) > 0
          then Some (Inr pages,
                     log @ [(\<lparr>search_key = key, after_cursor = cursor\<rparr>, Inr res)],
                     calls @ [Sent \<lparr>search_key = key, after_cursor = cursor\<rparr>,
                              Received (Inr res),
                              Sent \<lparr>search_key = key, after_cursor = Some (last_cursor res)\<rparr>])
          else if completed (pages @ [res])
          then Some (Inr (pages @ [res]),
                     log @ [(\<lparr>search_key = key, after_cursor = cursor\<rparr>, Inr res)],
                     calls @ [Sent \<lparr>search_key = key, after_cursor = cursor\<rparr>,
                              Received (Inr res),
                              Sent \<lparr>search_key = key, after_cursor = Some (last_cursor res)\<rparr>])
          else expand_pages client key completed (Some (last_cursor res))
                 (log @ [(\<lparr>search_key = key, after_cursor = cursor\<rparr>, Inr res)])
                 (pages @ [res])
                 (calls @ [Sent \<lparr>search_key = key, after_cursor = cursor\<rparr>,
                           Received (Inr res)]))"

section \<open>MercuryProvider\<close>

record cells_accumulator =
  cells :: "resolved_outpoint list"
  amount :: nat

definition empty_accumulator :: cells_accumulator where
  "empty_accumulator = \<lparr>cells = [], amount = 0\<rparr>"

subsection \<open>collectCkbLiveCells and getCkbLiveCellsBalance\<close>

definition ckb_search_key :: "script \<Rightarrow> search_key" where
  "ckb_search_key lock =
     \<lparr>key_script = lock, key_script_type = Lock,
      key_filter = \<lparr>filter_script = None, output_data_len_range = Some (''0x0'', ''0x1'')\<rparr>\<rparr>"

definition ckb_live_cells :: "get_cells_response list \<Rightarrow> resolved_outpoint list" where
  \<comment> \<open>\<open>concatMap((res) => res.objects), filter((cell) => cell.output.type == null)\<close>\<close>
  "ckb_live_cells pages =
     filter (\<lambda>cell. cell_type (output_cell cell) = None) (concat (map objects pages))"

definition ckb_step :: "cells_accumulator \<Rightarrow> resolved_outpoint \<Rightarrow> cells_accumulator" where
  "ckb_step acc next =
     \<lparr>cells = cells acc @ [next], amount = amount acc + capacity (output_cell next)\<rparr>"

definition ckb_scan :: "get_cells_response list \<Rightarrow> cells_accumulator list" where
  "ckb_scan pages = scan ckb_step empty_accumulator (ckb_live_cells pages)"

definition ckb_cells :: "hex_number \<Rightarrow> get_cells_response list \<Rightarrow> cells_accumulator list" where
  \<comment> \<open>the values of \<open>cells$\<close>\<close>
  "ckb_cells minimalCapacity pages =
     takeWhile_inclusive (\<lambda>acc. amount acc < minimalCapacity) (ckb_scan pages)"

definition ckb_completed :: "hex_number \<Rightarrow> get_cells_response list \<Rightarrow> bool" where
  "ckb_completed minimalCapacity pages =
     takeWhile_completed (\<lambda>acc. amount acc < minimalCapacity) (ckb_scan pages)"

definition collectCkbLiveCells ::
  "mercury_provider \<Rightarrow> address \<Rightarrow> hex_number \<Rightarrow>
   ((error + resolved_outpoint list) \<times> exchange list \<times> fetch_event list) option"
where
  "collectCkbLiveCells provider address minimalCapacity =
     (let lock = parseToScript provider address;
          searchKey = ckb_search_key lock
      in case expand_pages (get_cells provider) searchKey (ckb_completed minimalCapacity)
                None [] [] [] of
           None \<Rightarrow> None
         | Some (Inl e, log, calls) \<Rightarrow> Some (Inl e, log, calls)
         | Some (Inr pages, log, calls) \<Rightarrow>
             (let acc = lastValueFrom (ckb_cells minimalCapacity pages) empty_accumulator
              in if amount acc < minimalCapacity
                 then Some (Inl (NoEnoughCkbError
                        \<lparr>err_lock = lock, expected = minimalCapacity, actual = amount acc\<rparr>), log, calls)
                 else Some (Inr (cells acc), log, calls)))"

definition getCkbLiveCellsBalance ::
  "mercury_provider \<Rightarrow> address \<Rightarrow> ((error + hex_number) \<times> exchange list \<times> fetch_event list) option"
where
  "getCkbLiveCellsBalance provider address =
     (let searchKey = ckb_search_key (parseToScript provider address)
      in case expand_pages (get_cells provider) searchKey (\<lambda>pages. False) None [] [] [] of
           None \<Rightarrow> None
         | Some (Inl e, log, calls) \<Rightarrow> Some (Inl e, log, calls)
         | Some (Inr pages, log, calls) \<Rightarrow>
             Some (Inr (reduce (\<lambda>balance cell. balance + capacity (output_cell cell)) 0
                          (ckb_live_cells pages)), log, calls))"

subsection \<open>collectUdtCells and getUdtBalance\<close>

text \<open>
  Modelled from the spec: \<open>toBigUInt128LE\<close> of the package \<open>@lay2/pw-core\<close>, which
  is not part of the sources, together with the \<open>BigInt\<close> around it.  The spec
  gives the contribution of a token cell as the fixed-width little-endian unsigned
  integer in the leading bytes of its payload, so the function reads the bytes it is
  given, least significant first.
\<close>

fun toBigUInt128LE :: "byte list \<Rightarrow> nat" where
  "toBigUInt128LE [] = 0"
| "toBigUInt128LE (b # bs) = unat b + 256 * toBigUInt128LE bs"

text \<open>
  \<open>output_data.slice(0, 34)\<close> keeps the \<open>0x\<close> prefix and 32 hexadecimal digits of
  the payload string: its first 16 bytes.
\<close>

definition udt_search_key :: "script \<Rightarrow> script \<Rightarrow> search_key" where
  "udt_search_key lock udt =
     \<lparr>key_script = lock, key_script_type = Lock,
      key_filter = \<lparr>filter_script = Some udt, output_data_len_range = None\<rparr>\<rparr>"

definition udt_amount :: "resolved_outpoint \<Rightarrow> nat" where
  "udt_amount resolvedCell = toBigUInt128LE (take 16 (output_data resolvedCell))"

definition udt_step :: "cells_accumulator \<Rightarrow> resolved_outpoint \<Rightarrow> cells_accumulator" where
  "udt_step acc resolvedCell =
     \<lparr>cells = cells acc @ [resolvedCell], amount = amount acc + udt_amount resolvedCell\<rparr>"

definition udt_scan :: "get_cells_response list \<Rightarrow> cells_accumulator list" where
  "udt_scan pages = scan udt_step empty_accumulator (concat (map objects pages))"

definition udt_cells :: "hex_number \<Rightarrow> get_cells_response list \<Rightarrow> cells_accumulator list" where
  "udt_cells minimalAmount pages =
     takeWhile_inclusive (\<lambda>acc. amount acc < minimalAmount) (udt_scan pages)"

definition udt_completed :: "hex_number \<Rightarrow> get_cells_response list \<Rightarrow> bool" where
  "udt_completed minimalAmount pages =
     takeWhile_completed (\<lambda>acc. amount acc < minimalAmount) (udt_scan pages)"

definition collectUdtCells ::
  "mercury_provider \<Rightarrow> address \<Rightarrow> script \<Rightarrow> hex_number \<Rightarrow>
   ((error + resolved_outpoint list) \<times> exchange list \<times> fetch_event list) option"
where
  "collectUdtCells provider address udt minimalAmount =
     (let lock = parseToScript provider address;
          searchKey = udt_search_key lock udt
      in case expand_pages (get_cells provider) searchKey (udt_completed minimalAmount)
                None [] [] [] of
           None \<Rightarrow> None
         | Some (Inl e, log, calls) \<Rightarrow> Some (Inl e, log, calls)
         | Some (Inr pages, log, calls) \<Rightarrow>
             (let acc = lastValueFrom (udt_cells minimalAmount pages) empty_accumulator
              in if amount acc < minimalAmount
                 then Some (Inl (NoEnoughUdtError
                        \<lparr>err_lock = lock, expected = minimalAmount, actual = amount acc\<rparr>), log, calls)
                 else Some (Inr (cells acc), log, calls)))"

definition getUdtBalance ::
  "mercury_provider \<Rightarrow> address \<Rightarrow> script \<Rightarrow> ((error + hex_number) \<times> exchange list \<times> fetch_event list) option"
where
  "getUdtBalance provider address udt =
     (let searchKey = udt_search_key (parseToScript provider address) udt
      in case expand_pages (get_cells provider) searchKey (\<lambda>pages. False) None [] [] [] of
           None \<Rightarrow> None
         | Some (Inl e, log, calls) \<Rightarrow> Some (Inl e, log, calls)
         | Some (Inr pages, log, calls) \<Rightarrow>
             Some (Inr (reduce (\<lambda>acc resolvedCell. acc + udt_amount resolvedCell) 0
                          (concat (map objects pages))), log, calls))"

section \<open>AcpTransferSudtBuilder\<close>

datatype policy = findAcp | createCell | findOrCreate

record recipient_option =
  recipient :: address
  sudt :: script
  recipient_amount :: hex_number
  policy :: policy

record transfer_sudt_options =
  recipients :: "recipient_option list"

text \<open>
  The inner \<open>TransferSudtPwBuilder\<close> is a collaborator of the class: its \<open>build\<close> is
  a parameter, run on a world state \<open>'w\<close> that it may change and returning either
  an error or a transaction \<open>'tx\<close>.
\<close>

type_synonym ('w, 'tx) inner_builder =
  "transfer_sudt_options \<Rightarrow> address \<Rightarrow> 'w \<Rightarrow> (error + 'tx) \<times> 'w"

definition acp_build ::
  "('w, 'tx) inner_builder \<Rightarrow> transfer_sudt_options \<Rightarrow> address \<Rightarrow> 'w \<Rightarrow> (error + 'tx) \<times> 'w"
where
  "acp_build builder options sender w =
     (case find (\<lambda>option. recipient option = sender) (recipients options) of
        Some transferToSelf \<Rightarrow> (Inl (RecipientSameWithSenderError sender), w)
      | None \<Rightarrow> builder options sender w)"

section \<open>waitForTransactionCommitted\<close>

text \<open>
  The method runs against the outside world \<open>'w\<close>: the clock read by \<open>Date.now()\<close>
  (milliseconds, an integer), the ledger RPC, the indexer's tip and \<open>asyncSleep\<close>.
  Each call takes the world and returns the new one, in which time may have passed; a
  rejected RPC promise is a failure with an opaque reason.  The block numbers that the
  RPC calls return as hexadecimal strings are represented by the natural numbers they
  denote.
\<close>

record tx_status =
  status :: string

record 'tx transaction_with_status =
  transaction :: 'tx
  tx_status :: "tx_status option"

record ('w, 'tx) ledger =
  now :: "'w \<Rightarrow> int"
  get_transaction :: "string \<Rightarrow> 'w \<Rightarrow> (transport_failure + 'tx transaction_with_status option) \<times> 'w"
  get_tip_block_number :: "'w \<Rightarrow> (transport_failure + nat) \<times> 'w"
  get_tip :: "'w \<Rightarrow> (transport_failure + nat) \<times> 'w"
  asyncSleep :: "int \<Rightarrow> 'w \<Rightarrow> 'w"

record wait_options =
  pollIntervalMs :: "int option"
  timeoutMs :: "int option"

text \<open>
  \<open>Number(h)\<close> turns the block number into a double: the nearest number with 53
  significant bits, a tie going to the even one, and \<open>Infinity\<close> from \<open>2^1024\<close>
  on.  The doubles that arise are non-negative integers or \<open>Infinity\<close>, and \<open>>=\<close>
  compares them as such.
\<close>

datatype js_number = Finite nat | Infinity

fun binary_digits :: "nat \<Rightarrow> nat" where
  "binary_digits n = (if n = 0 then 0 else Suc (binary_digits (n div 2)))"

declare binary_digits.simps [simp del]

definition Number :: "nat \<Rightarrow> js_number" where
  "Number n =
     (let e = binary_digits n - 53;
          q = n div 2 ^ e;
          r = n mod 2 ^ e;
          m = (if 2 * r < 2 ^ e \<or> (2 * r = 2 ^ e \<and> even q) then q else q + 1) * 2 ^ e
      in if m < 2 ^ 1024 then Finite m else Infinity)"

fun js_ge :: "js_number \<Rightarrow> js_number \<Rightarrow> bool" where
  "js_ge Infinity y = True"
| "js_ge (Finite a) Infinity = False"
| "js_ge (Finite a) (Finite b) = (a \<ge> b)"

text \<open>
  Next to its outcome the method yields what it did, in order: for each poll the clock
  reading at which the loop condition admitted it and the answer it got, for each
  loop that ran out of time the clock reading at which its condition failed, and the
  ledger tip read between the two loops.
\<close>

datatype 'tx wait_event =
    CommitPoll int "'tx transaction_with_status option"
  | CommitTimeout int
  | LedgerTip nat
  | TipPoll int nat
  | TipTimeout int

definition committed :: "'tx transaction_with_status option \<Rightarrow> bool" where
  \<comment> \<open>\<open>tx?.tx_status?.status === 'committed'\<close>\<close>
  "committed tx =
     (case tx of
        None \<Rightarrow> False
      | Some t \<Rightarrow> (case tx_status t of None \<Rightarrow> False | Some s \<Rightarrow> status s = ''committed''))"

text \<open>The first loop: poll the ledger until it reports the transaction committed.\<close>

partial_function (option) await_commit ::
  "('w, 'tx) ledger \<Rightarrow> string \<Rightarrow> int \<Rightarrow> int \<Rightarrow> int \<Rightarrow> 'w \<Rightarrow> 'tx wait_event list \<Rightarrow>
   ((error + 'tx option) \<times> 'w \<times> 'tx wait_event list) option"
where
  "await_commit rpc txHash start timeout interval w events =
     (if now rpc w - start \<le> timeout
      then case get_transaction rpc txHash w of
             (Inl e, w') \<Rightarrow> Some (Inl (TransportError e), w', events)
           | (Inr tx, w') \<Rightarrow>
               if committed tx
               then Some (Inr (map_option transaction tx), w',
                          events @ [CommitPoll (now rpc w) tx])
               else await_commit rpc txHash start timeout interval
                      (asyncSleep rpc interval w') (events @ [CommitPoll (now rpc w) tx])
      else Some (Inr None, w, events @ [CommitTimeout (now rpc w)]))"

text \<open>
  The second loop: poll the indexer until its tip, as a double, has reached
  \<open>rpcTip\<close>.
\<close>

partial_function (option) await_indexer ::
  "('w, 'tx) ledger \<Rightarrow> int \<Rightarrow> int \<Rightarrow> int \<Rightarrow> js_number \<Rightarrow> 'w \<Rightarrow> 'tx wait_event list \<Rightarrow>
   ((error + unit) \<times> 'w \<times> 'tx wait_event list) option"
where
  "await_indexer rpc start timeout interval rpcTip w events =
     (if now rpc w - start \<le> timeout
      then case get_tip rpc w of
             (Inl e, w') \<Rightarrow> Some (Inl (TransportError e), w', events)
           | (Inr block_number, w') \<Rightarrow>
               if js_ge (Number block_number) rpcTip
               then Some (Inr (), w', events @ [TipPoll (now rpc w) block_number])
               else await_indexer rpc start timeout interval rpcTip
                      (asyncSleep rpc interval w') (events @ [TipPoll (now rpc w) block_number])
      else Some (Inr (), w, events @ [TipTimeout (now rpc w)]))"

text \<open>The defaults of \<open>const { pollIntervalMs = 1000, timeoutMs = 120000 } = options\<close>.\<close>

definition wait_interval :: "wait_options \<Rightarrow> int" where
  "wait_interval options = (case pollIntervalMs options of None \<Rightarrow> 1000 | Some ms \<Rightarrow> ms)"

definition wait_timeout :: "wait_options \<Rightarrow> int" where
  "wait_timeout options = (case timeoutMs options of None \<Rightarrow> 120000 | Some ms \<Rightarrow> ms)"

definition waitForTransactionCommitted ::
  "('w, 'tx) ledger \<Rightarrow> string \<Rightarrow> wait_options \<Rightarrow> 'w \<Rightarrow>
   ((error + 'tx option) \<times> 'w \<times> 'tx wait_event list) option"
where
  "waitForTransactionCommitted rpc txHash options w =
     (let interval = wait_interval options;
          timeout = wait_timeout options;
          start = now rpc w
      in case await_commit rpc txHash start timeout interval w [] of
           None \<Rightarrow> None
         | Some (Inl e, w1, events) \<Rightarrow> Some (Inl e, w1, events)
         | Some (Inr result, w1, events) \<Rightarrow>
             (case get_tip_block_number rpc w1 of
                (Inl e, w2) \<Rightarrow> Some (Inl (TransportError e), w2, events)
              | (Inr tip, w2) \<Rightarrow>
                  (case await_indexer rpc start timeout interval (Number tip) w2
                          (events @ [LedgerTip tip]) of
                     None \<Rightarrow> None
                   | Some (Inl e, w3, events') \<Rightarrow> Some (Inl e, w3, events')
                   | Some (Inr u, w3, events') \<Rightarrow> Some (Inr result, w3, events'))))"

section \<open>Notions used to state the properties\<close>

definition capacity_sum :: "resolved_outpoint list \<Rightarrow> nat" where
  "capacity_sum cs = sum_list (map (\<lambda>cell. capacity (output_cell cell)) cs)"

definition udt_sum :: "resolved_outpoint list \<Rightarrow> nat" where
  "udt_sum cs = sum_list (map udt_amount cs)"

text \<open>The \<open>k\<close>-byte little-endian encoding of a number (its \<open>k\<close> low bytes).\<close>

fun le_bytes :: "nat \<Rightarrow> nat \<Rightarrow> byte list" where
  "le_bytes 0 n = []"
| "le_bytes (Suc k) n = word_of_nat (n mod 256) # le_bytes k (n div 256)"

text \<open>
  The \<open>HexString\<close> that carries a payload: \<open>0x\<close> and two digits for each byte.
\<close>

definition hex_digit :: "nat \<Rightarrow> char" where
  "hex_digit d = ''0123456789abcdef'' ! d"

definition hex_byte :: "byte \<Rightarrow> string" where
  "hex_byte b = [hex_digit (unat b div 16), hex_digit (unat b mod 16)]"

definition hex_string :: "byte list \<Rightarrow> string" where
  "hex_string bs = ''0x'' @ concat (map hex_byte bs)"

text \<open>The non-empty pages among the responses of a log, in order.\<close>

fun delivered :: "exchange list \<Rightarrow> get_cells_response list" where
  "delivered [] = []"
| "delivered ((req, Inl e) # rest) = delivered rest"
| "delivered ((req, Inr res) # rest) =
     (if objects res = [] then delivered rest else res # delivered rest)"

text \<open>
  \<open>complete_run client key completed cursor pages new\<close>: starting with \<open>cursor\<close>
  and the pages \<open>pages\<close> already delivered, the exchanges \<open>new\<close> are what paging
  the client does up to and including the exchange at which it stops: a failed
  request, an empty page, or the page that completes the downstream.
\<close>

fun complete_run ::
  "mercury_client \<Rightarrow> search_key \<Rightarrow> (get_cells_response list \<Rightarrow> bool) \<Rightarrow> cursor option \<Rightarrow>
   get_cells_response list \<Rightarrow> exchange list \<Rightarrow> bool"
where
  "complete_run client key completed cursor pages [] = False"
| "complete_run client key completed cursor pages ((req, resp) # rest) =
     (req = \<lparr>search_key = key, after_cursor = cursor\<rparr> \<and> resp = client req \<and>
      (case resp of
         Inl e \<Rightarrow> rest = []
       | Inr res \<Rightarrow>
           if objects res = [] then rest = []
           else if completed (pages @ [res]) then rest = []
           else complete_run client key completed (Some (last_cursor res)) (pages @ [res]) rest))"

definition run_result ::
  "get_cells_response list \<Rightarrow> exchange list \<Rightarrow> error + get_cells_response list" where
  "run_result pages new =
     (case snd (last new) of
        Inl e \<Rightarrow> Inl (TransportError e)
      | Inr res \<Rightarrow> Inr (pages @ delivered new))"

text \<open>
  A log exhausts the source when it is the full scan of the client from the first page,
  never stopping early, and ends with an empty page.
\<close>

definition exhausts :: "mercury_client \<Rightarrow> search_key \<Rightarrow> exchange list \<Rightarrow> bool" where
  "exhausts client key log =
     (complete_run client key (\<lambda>pages. False) None [] log \<and>
      (case snd (last log) of Inl e \<Rightarrow> False | Inr res \<Rightarrow> objects res = []))"

text \<open>
  The trace of calls that belongs to the exchanges of a run: each request is sent and
  its response received before anything else happens, and after the last exchange,
  when it brought a page, the request for the page after it is sent as well.
\<close>

fun fetch_calls :: "search_key \<Rightarrow> exchange list \<Rightarrow> fetch_event list" where
  "fetch_calls key [] = []"
| "fetch_calls key ((req, Inl e) # rest) = Sent req # Received (Inl e) # fetch_calls key rest"
| "fetch_calls key ((req, Inr res) # rest) =
     Sent req # Received (Inr res) #
     (if rest = [] then [Sent \<lparr>search_key = key, after_cursor = Some (last_cursor res)\<rparr>]
      else fetch_calls key rest)"



section \<open>A synthetic paged source\<close>

text \<open>
  An indexer that serves the given pages one after the other and empty pages from
  then on; the cursor of page \<open>i\<close> is a string of length \<open>i + 1\<close>.
\<close>

definition serve_pages :: "resolved_outpoint list list \<Rightarrow> mercury_client" where
  "serve_pages pages req =
     (let i = (case after_cursor req of None \<Rightarrow> 0 | Some c \<Rightarrow> length c)
      in Inr \<lparr>objects = (if i < length pages then pages ! i else []),
              last_cursor = replicate (Suc i) CHR ''c''\<rparr>)"

definition example_script :: "string \<Rightarrow> script" where
  "example_script a = \<lparr>code_hash = ''0x9bd7'', hash_type = ''type'', args = a\<rparr>"

definition example_cell :: "string \<Rightarrow> nat \<Rightarrow> script option \<Rightarrow> byte list \<Rightarrow> resolved_outpoint" where
  "example_cell name cap ty payload =
     \<lparr>out_point = name,
      output_cell = \<lparr>capacity = cap, cell_lock = example_script ''0xa1'', cell_type = ty\<rparr>,
      output_data = payload\<rparr>"

definition example_udt :: script where
  "example_udt = \<lparr>code_hash = ''0x5e7a'', hash_type = ''data'', args = ''0x32e5''\<rparr>"

definition udt_cell :: "string \<Rightarrow> nat \<Rightarrow> resolved_outpoint" where
  \<comment> \<open>a token cell of 142 units of capacity whose payload is the 16-byte amount\<close>
  "udt_cell name n = example_cell name 142 (Some example_udt) (le_bytes 16 n)"

definition example_provider :: "resolved_outpoint list list \<Rightarrow> mercury_provider" where
  "example_provider pages = \<lparr>get_cells = serve_pages pages, parseToScript = example_script\<rparr>"

section \<open>Notions used to state the properties of the poller\<close>

text \<open>
  One round of a loop that does not end it: the poll, then the sleep.  The world at
  the \<open>k\<close>-th evaluation of a loop condition is \<open>k\<close> such rounds after the world
  in which the loop started.
\<close>

definition commit_round :: "('w, 'tx) ledger \<Rightarrow> string \<Rightarrow> int \<Rightarrow> 'w \<Rightarrow> 'w" where
  "commit_round rpc txHash interval w =
     asyncSleep rpc interval (snd (get_transaction rpc txHash w))"

definition tip_round :: "('w, 'tx) ledger \<Rightarrow> int \<Rightarrow> 'w \<Rightarrow> 'w" where
  "tip_round rpc interval w = asyncSleep rpc interval (snd (get_tip rpc w))"

text \<open>
  The first \<open>k\<close> conditions of the first loop found time left, and the polls they
  admitted were answered and did not report the transaction committed.
\<close>

definition commit_pending ::
  "('w, 'tx) ledger \<Rightarrow> string \<Rightarrow> int \<Rightarrow> int \<Rightarrow> int \<Rightarrow> 'w \<Rightarrow> nat \<Rightarrow> bool" where
  "commit_pending rpc txHash start timeout interval w k \<longleftrightarrow>
     (\<forall>j \<in> {0..<k}.
        now rpc ((commit_round rpc txHash interval ^^ j) w) - start \<le> timeout \<and>
        (case fst (get_transaction rpc txHash ((commit_round rpc txHash interval ^^ j) w)) of
           Inl e \<Rightarrow> False
         | Inr tx \<Rightarrow> \<not> committed tx))"

definition commit_polls ::
  "('w, 'tx) ledger \<Rightarrow> string \<Rightarrow> int \<Rightarrow> 'w \<Rightarrow> nat \<Rightarrow> 'tx wait_event list" where
  "commit_polls rpc txHash interval w k =
     map (\<lambda>j. CommitPoll (now rpc ((commit_round rpc txHash interval ^^ j) w))
            (case fst (get_transaction rpc txHash ((commit_round rpc txHash interval ^^ j) w)) of
               Inl e \<Rightarrow> None
             | Inr tx \<Rightarrow> tx))
       [0..<k]"

text \<open>
  How the first loop ends at the condition evaluated in world \<open>w\<close>: out of time with
  a null result; or with time left and a poll that is rejected, or that reports the
  transaction committed and yields its body.
\<close>

definition commit_end ::
  "('w, 'tx) ledger \<Rightarrow> string \<Rightarrow> int \<Rightarrow> int \<Rightarrow> 'w \<Rightarrow>
   (error + 'tx option) \<Rightarrow> 'w \<Rightarrow> 'tx wait_event list \<Rightarrow> bool" where
  "commit_end rpc txHash start timeout w r w' events \<longleftrightarrow>
     (if now rpc w - start \<le> timeout
      then (case get_transaction rpc txHash w of
              (Inl e, w1) \<Rightarrow> r = Inl (TransportError e) \<and> w' = w1 \<and> events = []
            | (Inr tx, w1) \<Rightarrow>
                committed tx \<and> r = Inr (map_option transaction tx) \<and> w' = w1 \<and>
                events = [CommitPoll (now rpc w) tx])
      else r = Inr None \<and> w' = w \<and> events = [CommitTimeout (now rpc w)])"

text \<open>The same for the second loop, which ends when the indexer has caught up.\<close>

definition tip_pending ::
  "('w, 'tx) ledger \<Rightarrow> int \<Rightarrow> int \<Rightarrow> int \<Rightarrow> js_number \<Rightarrow> 'w \<Rightarrow> nat \<Rightarrow> bool" where
  "tip_pending rpc start timeout interval rpcTip w k \<longleftrightarrow>
     (\<forall>j \<in> {0..<k}.
        now rpc ((tip_round rpc interval ^^ j) w) - start \<le> timeout \<and>
        (case fst (get_tip rpc ((tip_round rpc interval ^^ j) w)) of
           Inl e \<Rightarrow> False
         | Inr block_number \<Rightarrow> \<not> js_ge (Number block_number) rpcTip))"

definition tip_polls :: "('w, 'tx) ledger \<Rightarrow> int \<Rightarrow> 'w \<Rightarrow> nat \<Rightarrow> 'tx wait_event list" where
  "tip_polls rpc interval w k =
     map (\<lambda>j. TipPoll (now rpc ((tip_round rpc interval ^^ j) w))
            (case fst (get_tip rpc ((tip_round rpc interval ^^ j) w)) of
               Inl e \<Rightarrow> 0
             | Inr block_number \<Rightarrow> block_number))
       [0..<k]"

definition tip_end ::
  "('w, 'tx) ledger \<Rightarrow> int \<Rightarrow> int \<Rightarrow> js_number \<Rightarrow> 'w \<Rightarrow>
   (error + unit) \<Rightarrow> 'w \<Rightarrow> 'tx wait_event list \<Rightarrow> bool" where
  "tip_end rpc start timeout rpcTip w r w' events \<longleftrightarrow>
     (if now rpc w - start \<le> timeout
      then (case get_tip rpc w of
              (Inl e, w1) \<Rightarrow> r = Inl (TransportError e) \<and> w' = w1 \<and> events = []
            | (Inr block_number, w1) \<Rightarrow>
                js_ge (Number block_number) rpcTip \<and> r = Inr () \<and> w' = w1 \<and>
                events = [TipPoll (now rpc w) block_number])
      else r = Inr () \<and> w' = w \<and> events = [TipTimeout (now rpc w)])"

text \<open>
  Time does not run backwards during an RPC call, and \<open>asyncSleep(ms)\<close> takes at
  least \<open>ms\<close> milliseconds.
\<close>

definition clock_advances :: "('w, 'tx) ledger \<Rightarrow> bool" where
  "clock_advances rpc \<longleftrightarrow>
     (\<forall>w. (\<forall>txHash. now rpc w \<le> now rpc (snd (get_transaction rpc txHash w))) \<and>
          now rpc w \<le> now rpc (snd (get_tip rpc w)) \<and>
          (\<forall>ms. now rpc w + ms \<le> now rpc (asyncSleep rpc ms w)))"

text \<open>
  An example world: the state is the clock; every RPC call takes 5 ms, sleeping takes
  exactly the time asked for, the transaction is committed from \<open>commit_time\<close> on,
  the ledger tip is \<open>ledger_tip\<close>, and the indexer's tip is 99 until \<open>index_time\<close>
  and \<open>indexer_tip\<close> from then on.
\<close>

definition example_ledger :: "int \<Rightarrow> int \<Rightarrow> nat \<Rightarrow> nat \<Rightarrow> (int, string) ledger" where
  "example_ledger commit_time index_time ledger_tip indexer_tip =
     \<lparr>now = (\<lambda>w. w),
      get_transaction = (\<lambda>txHash w.
        (Inr (Some \<lparr>transaction = ''body of '' @ txHash,
                    tx_status = Some \<lparr>status = (if commit_time \<le> w then ''committed''
                                                 else ''pending'')\<rparr>\<rparr>), w + 5)),
      get_tip_block_number = (\<lambda>w. (Inr ledger_tip, w + 5)),
      get_tip = (\<lambda>w. (Inr (if index_time \<le> w then indexer_tip else 99), w + 5)),
      asyncSleep = (\<lambda>ms w. w + ms)\<rparr>"

section \<open>The paging loop\<close>

declare expand_pages.simps [code]

lemma expand_pages_complete:
  "complete_run client key completed cursor pages new \<Longrightarrow>
   expand_pages client key completed cursor log pages calls =
     Some (run_result pages new, log @ new, calls @ fetch_calls key new)"
proof (induction new arbitrary: cursor log pages calls)
  case Nil
  then show ?case by simp
next
  case (Cons x new)
  obtain req resp where x: "x = (req, resp)" by (cases x)
  from Cons.prems x have req: "req = \<lparr>search_key = key, after_cursor = cursor\<rparr>"
    and resp: "resp = client req" by simp_all
  show ?case
  proof (cases resp)
    case (Inl e)
    with Cons.prems x have "new = []" by simp
    with Inl x req resp show ?thesis
      by (subst expand_pages.simps) (simp add: run_result_def)
  next
    case (Inr res)
    show ?thesis
    proof (cases "objects res = []")
      case True
      with Cons.prems x Inr have "new = []" by simp
      with True Inr x req resp show ?thesis
        by (subst expand_pages.simps) (simp add: run_result_def)
    next
      case False
      note nonempty = False
      show ?thesis
      proof (cases "completed (pages @ [res])")
        case True
        with Cons.prems x Inr nonempty have "new = []" by simp
        with True nonempty Inr x req resp show ?thesis
          by (subst expand_pages.simps) (simp add: run_result_def)
      next
        case False
        with Cons.prems x Inr nonempty
        have run: "complete_run client key completed (Some (last_cursor res)) (pages @ [res]) new"
          by simp
        then have ne: "new \<noteq> []" by (cases new) simp_all
        from Cons.IH [OF run, of "log @ [(req, resp)]" "calls @ [Sent req, Received resp]"]
        have "expand_pages client key completed (Some (last_cursor res)) (log @ [(req, resp)])
                (pages @ [res]) (calls @ [Sent req, Received resp])
              = Some (run_result (pages @ [res]) new, log @ (req, resp) # new,
                      calls @ Sent req # Received resp # fetch_calls key new)" by simp
        moreover have "run_result (pages @ [res]) new = run_result pages (x # new)"
          using ne nonempty x Inr by (simp add: run_result_def split: sum.splits)
        moreover have "fetch_calls key (x # new) = Sent req # Received resp # fetch_calls key new"
          using ne x Inr by simp
        ultimately show ?thesis
          using False nonempty Inr x req resp
          by (subst expand_pages.simps) simp
      qed
    qed
  qed
qed

lemma expand_pages_sound:
  assumes "expand_pages client key completed cursor log pages calls = Some y"
  shows "\<exists>new. fst (snd y) = log @ new \<and> complete_run client key completed cursor pages new \<and>
               fst y = run_result pages new \<and> snd (snd y) = calls @ fetch_calls key new"
proof (rule expand_pages.raw_induct
    [where P = "\<lambda>client key completed cursor log pages calls y.
       \<exists>new. fst (snd y) = log @ new \<and> complete_run client key completed cursor pages new \<and>
               fst y = run_result pages new \<and> snd (snd y) = calls @ fetch_calls key new",
      OF _ assms], goal_cases)
  case (1 expand_pages' client key completed cursor log pages calls y)
  let ?req = "\<lparr>search_key = key, after_cursor = cursor\<rparr>"
  show ?case
  proof (cases "client ?req")
    case (Inl e)
    with "1"(2) have "y = (Inl (TransportError e), log @ [(?req, Inl e)],
        calls @ [Sent ?req, Received (Inl e)])" by simp
    with Inl show ?thesis
      by (intro exI [of _ "[(?req, Inl e)]"]) (simp add: run_result_def)
  next
    case (Inr res)
    let ?next = "\<lparr>search_key = key, after_cursor = Some (last_cursor res)\<rparr>"
    show ?thesis
    proof (cases "objects res = []")
      case True
      with Inr "1"(2) have "y = (Inr pages, log @ [(?req, Inr res)],
          calls @ [Sent ?req, Received (Inr res), Sent ?next])" by simp
      with Inr True show ?thesis
        by (intro exI [of _ "[(?req, Inr res)]"]) (simp add: run_result_def)
    next
      case False
      note nonempty = False
      show ?thesis
      proof (cases "completed (pages @ [res])")
        case True
        with Inr nonempty "1"(2) have "y = (Inr (pages @ [res]), log @ [(?req, Inr res)],
            calls @ [Sent ?req, Received (Inr res), Sent ?next])" by simp
        with Inr True nonempty show ?thesis
          by (intro exI [of _ "[(?req, Inr res)]"]) (simp add: run_result_def)
      next
        case False
        with Inr nonempty "1"(2)
        have "expand_pages' client key completed (Some (last_cursor res))
                (log @ [(?req, Inr res)]) (pages @ [res])
                (calls @ [Sent ?req, Received (Inr res)]) = Some y"
          by simp
        from "1"(1) [OF this] obtain new where
          new: "fst (snd y) = (log @ [(?req, Inr res)]) @ new"
            "complete_run client key completed (Some (last_cursor res)) (pages @ [res]) new"
            "fst y = run_result (pages @ [res]) new"
            "snd (snd y) = (calls @ [Sent ?req, Received (Inr res)]) @ fetch_calls key new"
          by blast
        from new(2) have ne: "new \<noteq> []" by (cases new) simp_all
        have "run_result (pages @ [res]) new = run_result pages ((?req, Inr res) # new)"
          using ne nonempty by (simp add: run_result_def split: sum.splits)
        with new Inr nonempty False ne show ?thesis
          by (intro exI [of _ "(?req, Inr res) # new"]) simp
      qed
    qed
  qed
qed

section \<open>Accumulating a list of cells\<close>

lemma lastValueFrom_Cons:
  "lastValueFrom (x # xs) d = lastValueFrom xs x"
  by (simp add: lastValueFrom_def)

lemma accumulate_prefix:
  assumes step: "\<And>acc x. step acc x = \<lparr>cells = cells acc @ [x], amount = amount acc + v x\<rparr>"
  shows "\<exists>k \<le> length xs.
           length (takeWhile_inclusive (\<lambda>acc. amount acc < T) (scan step a xs)) = k \<and>
           lastValueFrom (takeWhile_inclusive (\<lambda>acc. amount acc < T) (scan step a xs)) a =
             \<lparr>cells = cells a @ take k xs, amount = amount a + sum_list (map v (take k xs))\<rparr> \<and>
           (\<forall>j. 0 < j \<and> j < k \<longrightarrow> amount a + sum_list (map v (take j xs)) < T) \<and>
           (k < length xs \<longrightarrow> T \<le> amount a + sum_list (map v (take k xs))) \<and>
           (xs \<noteq> [] \<longrightarrow> 0 < k)"
proof (induction xs arbitrary: a)
  case Nil
  show ?case by (simp add: lastValueFrom_def)
next
  case (Cons x xs)
  let ?a' = "step a x"
  have a': "cells ?a' = cells a @ [x]" "amount ?a' = amount a + v x"
    by (simp_all add: step)
  show ?case
  proof (cases "amount ?a' < T")
    case False
    then show ?thesis
      by (intro exI [of _ 1]) (simp add: a' lastValueFrom_def step)
  next
    case True
    from Cons.IH [of ?a'] obtain k where k: "k \<le> length xs"
      "length (takeWhile_inclusive (\<lambda>acc. amount acc < T) (scan step ?a' xs)) = k"
      "lastValueFrom (takeWhile_inclusive (\<lambda>acc. amount acc < T) (scan step ?a' xs)) ?a' =
         \<lparr>cells = cells ?a' @ take k xs, amount = amount ?a' + sum_list (map v (take k xs))\<rparr>"
      "\<forall>j. 0 < j \<and> j < k \<longrightarrow> amount ?a' + sum_list (map v (take j xs)) < T"
      "k < length xs \<longrightarrow> T \<le> amount ?a' + sum_list (map v (take k xs))"
      by blast
    have mid: "\<forall>j. 0 < j \<and> j < Suc k \<longrightarrow> amount a + sum_list (map v (take j (x # xs))) < T"
    proof (intro allI impI)
      fix j assume j: "0 < j \<and> j < Suc k"
      then obtain i where i: "j = Suc i" by (cases j) auto
      show "amount a + sum_list (map v (take j (x # xs))) < T"
      proof (cases "i = 0")
        case True
        with i \<open>amount ?a' < T\<close> a' show ?thesis by simp
      next
        case False
        with j i k(4) have "amount ?a' + sum_list (map v (take i xs)) < T" by simp
        with i a' show ?thesis by (simp add: add.assoc)
      qed
    qed
    show ?thesis
      using True k(1,2,3,5) mid
      by (intro exI [of _ "Suc k"]) (simp add: a' lastValueFrom_Cons add.assoc)
  qed
qed

lemma takeWhile_completed_last:
  "takeWhile_completed P xs \<Longrightarrow> \<not> P (lastValueFrom (takeWhile_inclusive P xs) d)"
  by (induction xs arbitrary: d) (auto simp: takeWhile_completed_def lastValueFrom_def)

lemma takeWhile_completed_append:
  "takeWhile_completed P (xs @ ys) = (takeWhile_completed P xs \<or> takeWhile_completed P ys)"
  by (auto simp: takeWhile_completed_def list_ex_iff)

lemma scan_append:
  "scan f a (xs @ ys) = scan f a xs @ scan f (foldl f a xs) ys"
  by (induction xs arbitrary: a) simp_all

lemma scan_amount_bound:
  assumes step: "\<And>acc x. step acc x = \<lparr>cells = cells acc @ [x], amount = amount acc + v x\<rparr>"
  shows "acc \<in> set (scan step a xs) \<Longrightarrow> amount acc \<le> amount a + sum_list (map v xs)"
proof (induction xs arbitrary: a)
  case Nil
  then show ?case by simp
next
  case (Cons x xs)
  from Cons.prems have "acc = step a x \<or> acc \<in> set (scan step (step a x) xs)" by simp
  then show ?case
  proof
    assume "acc = step a x"
    then show ?thesis by (simp add: step)
  next
    assume "acc \<in> set (scan step (step a x) xs)"
    from Cons.IH [OF this] show ?thesis by (simp add: step add.assoc)
  qed
qed

lemma run_result_start:
  "run_result [] log = Inr pages \<Longrightarrow> pages = delivered log"
  by (auto simp: run_result_def split: sum.splits)

lemma complete_run_nonempty:
  "complete_run client key completed cursor pages new \<Longrightarrow> new \<noteq> []"
  by (cases new) simp_all

section \<open>The operations in terms of runs\<close>

lemma collectCkbLiveCells_iff:
  "collectCkbLiveCells provider address T = Some (r, log, calls) \<longleftrightarrow>
     complete_run (get_cells provider) (ckb_search_key (parseToScript provider address))
       (ckb_completed T) None [] log \<and>
     r = (case run_result [] log of
            Inl e \<Rightarrow> Inl e
          | Inr pages \<Rightarrow>
              if amount (lastValueFrom (ckb_cells T pages) empty_accumulator) < T
              then Inl (NoEnoughCkbError
                     \<lparr>err_lock = parseToScript provider address, expected = T,
                      actual = amount (lastValueFrom (ckb_cells T pages) empty_accumulator)\<rparr>)
              else Inr (cells (lastValueFrom (ckb_cells T pages) empty_accumulator))) \<and>
     calls = fetch_calls (ckb_search_key (parseToScript provider address)) log"
    (is "?L \<longleftrightarrow> ?run \<and> ?res \<and> ?calls")
proof
  assume ?L
  then obtain y where y: "expand_pages (get_cells provider)
      (ckb_search_key (parseToScript provider address)) (ckb_completed T) None [] [] [] = Some y"
    by (auto simp: collectCkbLiveCells_def Let_def split: option.splits)
  obtain r' log' calls' where y': "y = (r', log', calls')" by (cases y)
  from expand_pages_sound [OF y] y' have run: "complete_run (get_cells provider)
      (ckb_search_key (parseToScript provider address)) (ckb_completed T) None [] log'"
    and res: "r' = run_result [] log'"
    and tr: "calls' = fetch_calls (ckb_search_key (parseToScript provider address)) log'" by auto
  from \<open>?L\<close> y y' have "log' = log" "calls' = calls"
    by (auto simp: collectCkbLiveCells_def Let_def split: sum.splits if_splits)
  with \<open>?L\<close> y y' run res tr show "?run \<and> ?res \<and> ?calls"
    by (auto simp: collectCkbLiveCells_def Let_def split: sum.splits if_splits)
next
  assume "?run \<and> ?res \<and> ?calls"
  then have run: ?run and res: ?res and tr: ?calls by simp_all
  from expand_pages_complete [OF run, of "[]" "[]"] res tr show ?L
    by (auto simp: collectCkbLiveCells_def Let_def split: sum.splits)
qed

lemma collectUdtCells_iff:
  "collectUdtCells provider address udt T = Some (r, log, calls) \<longleftrightarrow>
     complete_run (get_cells provider) (udt_search_key (parseToScript provider address) udt)
       (udt_completed T) None [] log \<and>
     r = (case run_result [] log of
            Inl e \<Rightarrow> Inl e
          | Inr pages \<Rightarrow>
              if amount (lastValueFrom (udt_cells T pages) empty_accumulator) < T
              then Inl (NoEnoughUdtError
                     \<lparr>err_lock = parseToScript provider address, expected = T,
                      actual = amount (lastValueFrom (udt_cells T pages) empty_accumulator)\<rparr>)
              else Inr (cells (lastValueFrom (udt_cells T pages) empty_accumulator))) \<and>
     calls = fetch_calls (udt_search_key (parseToScript provider address) udt) log"
    (is "?L \<longleftrightarrow> ?run \<and> ?res \<and> ?calls")
proof
  assume ?L
  then obtain y where y: "expand_pages (get_cells provider)
      (udt_search_key (parseToScript provider address) udt) (udt_completed T) None [] [] [] = Some y"
    by (auto simp: collectUdtCells_def Let_def split: option.splits)
  obtain r' log' calls' where y': "y = (r', log', calls')" by (cases y)
  from expand_pages_sound [OF y] y' have run: "complete_run (get_cells provider)
      (udt_search_key (parseToScript provider address) udt) (udt_completed T) None [] log'"
    and res: "r' = run_result [] log'"
    and tr: "calls' = fetch_calls (udt_search_key (parseToScript provider address) udt) log'" by auto
  from \<open>?L\<close> y y' have "log' = log" "calls' = calls"
    by (auto simp: collectUdtCells_def Let_def split: sum.splits if_splits)
  with \<open>?L\<close> y y' run res tr show "?run \<and> ?res \<and> ?calls"
    by (auto simp: collectUdtCells_def Let_def split: sum.splits if_splits)
next
  assume "?run \<and> ?res \<and> ?calls"
  then have run: ?run and res: ?res and tr: ?calls by simp_all
  from expand_pages_complete [OF run, of "[]" "[]"] res tr show ?L
    by (auto simp: collectUdtCells_def Let_def split: sum.splits)
qed

lemma getCkbLiveCellsBalance_iff:
  "getCkbLiveCellsBalance provider address = Some (r, log, calls) \<longleftrightarrow>
     complete_run (get_cells provider) (ckb_search_key (parseToScript provider address))
       (\<lambda>pages. False) None [] log \<and>
     r = (case run_result [] log of
            Inl e \<Rightarrow> Inl e
          | Inr pages \<Rightarrow>
              Inr (reduce (\<lambda>balance cell. balance + capacity (output_cell cell)) 0
                     (ckb_live_cells pages))) \<and>
     calls = fetch_calls (ckb_search_key (parseToScript provider address)) log"
    (is "?L \<longleftrightarrow> ?run \<and> ?res \<and> ?calls")
proof
  assume ?L
  then obtain y where y: "expand_pages (get_cells provider)
      (ckb_search_key (parseToScript provider address)) (\<lambda>pages. False) None [] [] [] = Some y"
    by (auto simp: getCkbLiveCellsBalance_def Let_def split: option.splits)
  obtain r' log' calls' where y': "y = (r', log', calls')" by (cases y)
  from expand_pages_sound [OF y] y' have run: "complete_run (get_cells provider)
      (ckb_search_key (parseToScript provider address)) (\<lambda>pages. False) None [] log'"
    and res: "r' = run_result [] log'"
    and tr: "calls' = fetch_calls (ckb_search_key (parseToScript provider address)) log'" by auto
  from \<open>?L\<close> y y' have "log' = log" "calls' = calls"
    by (auto simp: getCkbLiveCellsBalance_def Let_def split: sum.splits if_splits)
  with \<open>?L\<close> y y' run res tr show "?run \<and> ?res \<and> ?calls"
    by (auto simp: getCkbLiveCellsBalance_def Let_def split: sum.splits if_splits)
next
  assume "?run \<and> ?res \<and> ?calls"
  then have run: ?run and res: ?res and tr: ?calls by simp_all
  from expand_pages_complete [OF run, of "[]" "[]"] res tr show ?L
    by (auto simp: getCkbLiveCellsBalance_def Let_def split: sum.splits)
qed

lemma getUdtBalance_iff:
  "getUdtBalance provider address udt = Some (r, log, calls) \<longleftrightarrow>
     complete_run (get_cells provider) (udt_search_key (parseToScript provider address) udt)
       (\<lambda>pages. False) None [] log \<and>
     r = (case run_result [] log of
            Inl e \<Rightarrow> Inl e
          | Inr pages \<Rightarrow>
              Inr (reduce (\<lambda>acc resolvedCell. acc + udt_amount resolvedCell) 0
                     (concat (map objects pages)))) \<and>
     calls = fetch_calls (udt_search_key (parseToScript provider address) udt) log"
    (is "?L \<longleftrightarrow> ?run \<and> ?res \<and> ?calls")
proof
  assume ?L
  then obtain y where y: "expand_pages (get_cells provider)
      (udt_search_key (parseToScript provider address) udt) (\<lambda>pages. False) None [] [] [] = Some y"
    by (auto simp: getUdtBalance_def Let_def split: option.splits)
  obtain r' log' calls' where y': "y = (r', log', calls')" by (cases y)
  from expand_pages_sound [OF y] y' have run: "complete_run (get_cells provider)
      (udt_search_key (parseToScript provider address) udt) (\<lambda>pages. False) None [] log'"
    and res: "r' = run_result [] log'"
    and tr: "calls' = fetch_calls (udt_search_key (parseToScript provider address) udt) log'" by auto
  from \<open>?L\<close> y y' have "log' = log" "calls' = calls"
    by (auto simp: getUdtBalance_def Let_def split: sum.splits if_splits)
  with \<open>?L\<close> y y' run res tr show "?run \<and> ?res \<and> ?calls"
    by (auto simp: getUdtBalance_def Let_def split: sum.splits if_splits)
next
  assume "?run \<and> ?res \<and> ?calls"
  then have run: ?run and res: ?res and tr: ?calls by simp_all
  from expand_pages_complete [OF run, of "[]" "[]"] res tr show ?L
    by (auto simp: getUdtBalance_def Let_def split: sum.splits)
qed

lemma accumulate_from_empty:
  assumes step: "\<And>acc x. step acc x = \<lparr>cells = cells acc @ [x], amount = amount acc + v x\<rparr>"
  shows "\<exists>k \<le> length xs.
           lastValueFrom (takeWhile_inclusive (\<lambda>acc. amount acc < T)
               (scan step empty_accumulator xs)) empty_accumulator =
             \<lparr>cells = take k xs, amount = sum_list (map v (take k xs))\<rparr> \<and>
           (\<forall>j. 0 < j \<and> j < k \<longrightarrow> sum_list (map v (take j xs)) < T) \<and>
           (k < length xs \<longrightarrow> T \<le> sum_list (map v (take k xs))) \<and>
           (xs \<noteq> [] \<longrightarrow> 0 < k)"
proof -
  from accumulate_prefix [of step v xs T empty_accumulator, OF step]
  obtain k where "k \<le> length xs"
    "lastValueFrom (takeWhile_inclusive (\<lambda>acc. amount acc < T)
        (scan step empty_accumulator xs)) empty_accumulator =
      \<lparr>cells = cells empty_accumulator @ take k xs,
       amount = amount empty_accumulator + sum_list (map v (take k xs))\<rparr>"
    "\<forall>j. 0 < j \<and> j < k \<longrightarrow> amount empty_accumulator + sum_list (map v (take j xs)) < T"
    "k < length xs \<longrightarrow> T \<le> amount empty_accumulator + sum_list (map v (take k xs))"
    "xs \<noteq> [] \<longrightarrow> 0 < k"
    by blast
  then show ?thesis
    by (intro exI [of _ k]) (simp add: empty_accumulator_def)
qed

lemma ckb_result:
  "\<exists>k \<le> length (ckb_live_cells pages).
     lastValueFrom (ckb_cells T pages) empty_accumulator =
       \<lparr>cells = take k (ckb_live_cells pages),
        amount = capacity_sum (take k (ckb_live_cells pages))\<rparr> \<and>
     (\<forall>j. 0 < j \<and> j < k \<longrightarrow> capacity_sum (take j (ckb_live_cells pages)) < T) \<and>
     (k < length (ckb_live_cells pages) \<longrightarrow> T \<le> capacity_sum (take k (ckb_live_cells pages))) \<and>
     (ckb_live_cells pages \<noteq> [] \<longrightarrow> 0 < k)"
  unfolding ckb_cells_def ckb_scan_def capacity_sum_def
  by (rule accumulate_from_empty) (simp add: ckb_step_def)

lemma udt_result:
  "\<exists>k \<le> length (concat (map objects pages)).
     lastValueFrom (udt_cells T pages) empty_accumulator =
       \<lparr>cells = take k (concat (map objects pages)),
        amount = udt_sum (take k (concat (map objects pages)))\<rparr> \<and>
     (\<forall>j. 0 < j \<and> j < k \<longrightarrow> udt_sum (take j (concat (map objects pages))) < T) \<and>
     (k < length (concat (map objects pages)) \<longrightarrow>
        T \<le> udt_sum (take k (concat (map objects pages)))) \<and>
     (concat (map objects pages) \<noteq> [] \<longrightarrow> 0 < k)"
  unfolding udt_cells_def udt_scan_def udt_sum_def
  by (rule accumulate_from_empty) (simp add: udt_step_def)

text \<open>What a successful collection returns, for any contribution function.\<close>

lemma collected_prefix:
  assumes k: "k \<le> length xs"
    and mid: "\<forall>j. 0 < j \<and> j < k \<longrightarrow> sum_list (map v (take j xs)) < T"
    and ne: "xs \<noteq> [] \<longrightarrow> 0 < k"
    and enough: "(T::nat) \<le> sum_list (map v (take k xs))"
  shows "(\<forall>pre c. take k xs = pre @ [c] \<and> length (take k xs) \<noteq> 1 \<longrightarrow> sum_list (map v pre) < T)"
    and "(\<forall>i. 0 < i \<and> i < length (take k xs) \<longrightarrow> sum_list (map v (take i (take k xs))) < T)"
    and "0 < T \<longrightarrow> take k xs \<noteq> []"
    and "T = 0 \<longrightarrow> take k xs = take 1 xs"
    and "0 < T \<longrightarrow> sum_list (map v (butlast (take k xs))) < T"
proof -
  show "0 < T \<longrightarrow> sum_list (map v (butlast (take k xs))) < T"
  proof
    assume T: "0 < T"
    have bl: "butlast (take k xs) = take (k - 1) xs"
      using k by (simp add: butlast_take)
    show "sum_list (map v (butlast (take k xs))) < T"
    proof (cases "k - 1 = 0")
      case True
      with T bl show ?thesis by simp
    next
      case False
      then have "0 < k - 1 \<and> k - 1 < k" by simp
      with mid bl show ?thesis by simp
    qed
  qed
  show "\<forall>pre c. take k xs = pre @ [c] \<and> length (take k xs) \<noteq> 1 \<longrightarrow> sum_list (map v pre) < T"
  proof (intro allI impI)
    fix pre c assume a: "take k xs = pre @ [c] \<and> length (take k xs) \<noteq> 1"
    then have eq: "take k xs = pre @ [c]" and n1: "length (take k xs) \<noteq> 1" by blast+
    from eq have "length (take k xs) = Suc (length pre)" by simp
    with k n1 have len: "length pre = k - 1" "0 < k - 1" "k - 1 < k" by simp_all
    from eq len have "pre = take (k - 1) (take k xs)" by simp
    then have "pre = take (k - 1) xs" by (simp add: min_def)
    with mid len show "sum_list (map v pre) < T" by simp
  qed
  show "\<forall>i. 0 < i \<and> i < length (take k xs) \<longrightarrow> sum_list (map v (take i (take k xs))) < T"
    using mid k by (auto simp: min_def)
  show "0 < T \<longrightarrow> take k xs \<noteq> []"
  proof (intro impI notI)
    assume "0 < T" "take k xs = []"
    with enough show False by simp
  qed
  show "T = 0 \<longrightarrow> take k xs = take 1 xs"
  proof
    assume T: "T = 0"
    have "k \<le> 1"
    proof (rule ccontr)
      assume "\<not> k \<le> 1"
      then have "0 < (1::nat) \<and> 1 < k" by simp
      with mid have "sum_list (map v (take 1 xs)) < T" by blast
      with T show False by simp
    qed
    with ne show "take k xs = take 1 xs" by (cases xs; cases k) auto
  qed
qed

lemma collectCkbLiveCells_success:
  assumes "collectCkbLiveCells provider address T = Some (Inr cs, log, calls)"
  shows "\<exists>k \<le> length (ckb_live_cells (delivered log)).
           cs = take k (ckb_live_cells (delivered log)) \<and>
           T \<le> capacity_sum (take k (ckb_live_cells (delivered log))) \<and>
           (\<forall>j. 0 < j \<and> j < k \<longrightarrow> capacity_sum (take j (ckb_live_cells (delivered log))) < T) \<and>
           (ckb_live_cells (delivered log) \<noteq> [] \<longrightarrow> 0 < k)"
proof -
  from assms obtain pages where pages: "run_result [] log = Inr pages"
    and res: "\<not> amount (lastValueFrom (ckb_cells T pages) empty_accumulator) < T"
      "cs = cells (lastValueFrom (ckb_cells T pages) empty_accumulator)"
    by (auto simp: collectCkbLiveCells_iff split: sum.splits if_splits)
  from pages have dl: "pages = delivered log" by (rule run_result_start)
  from ckb_result [of pages T] obtain k where k: "k \<le> length (ckb_live_cells pages)"
    "lastValueFrom (ckb_cells T pages) empty_accumulator =
       \<lparr>cells = take k (ckb_live_cells pages),
        amount = capacity_sum (take k (ckb_live_cells pages))\<rparr>"
    "\<forall>j. 0 < j \<and> j < k \<longrightarrow> capacity_sum (take j (ckb_live_cells pages)) < T"
    "ckb_live_cells pages \<noteq> [] \<longrightarrow> 0 < k"
    by blast
  with res dl show ?thesis
    by (intro exI [of _ k]) simp
qed

lemma collectUdtCells_success:
  assumes "collectUdtCells provider address udt T = Some (Inr cs, log, calls)"
  shows "\<exists>k \<le> length (concat (map objects (delivered log))).
           cs = take k (concat (map objects (delivered log))) \<and>
           T \<le> udt_sum (take k (concat (map objects (delivered log)))) \<and>
           (\<forall>j. 0 < j \<and> j < k \<longrightarrow> udt_sum (take j (concat (map objects (delivered log)))) < T) \<and>
           (concat (map objects (delivered log)) \<noteq> [] \<longrightarrow> 0 < k)"
proof -
  from assms obtain pages where pages: "run_result [] log = Inr pages"
    and res: "\<not> amount (lastValueFrom (udt_cells T pages) empty_accumulator) < T"
      "cs = cells (lastValueFrom (udt_cells T pages) empty_accumulator)"
    by (auto simp: collectUdtCells_iff split: sum.splits if_splits)
  from pages have dl: "pages = delivered log" by (rule run_result_start)
  from udt_result [of pages T] obtain k where k: "k \<le> length (concat (map objects pages))"
    "lastValueFrom (udt_cells T pages) empty_accumulator =
       \<lparr>cells = take k (concat (map objects pages)),
        amount = udt_sum (take k (concat (map objects pages)))\<rparr>"
    "\<forall>j. 0 < j \<and> j < k \<longrightarrow> udt_sum (take j (concat (map objects pages))) < T"
    "concat (map objects pages) \<noteq> [] \<longrightarrow> 0 < k"
    by blast
  with res dl show ?thesis
    by (intro exI [of _ k]) simp
qed

lemma complete_run_search_key:
  "complete_run client key completed cursor pages new \<Longrightarrow>
   \<forall>x \<in> set new. search_key (fst x) = key \<and> snd x = client (fst x)"
proof (induction new arbitrary: cursor pages)
  case Nil
  then show ?case by simp
next
  case (Cons x new)
  obtain req resp where x: "x = (req, resp)" by (cases x)
  from Cons.prems x have hd: "search_key req = key" "resp = client req" by simp_all
  have "\<forall>x \<in> set new. search_key (fst x) = key \<and> snd x = client (fst x)"
  proof (cases "new = []")
    case True
    then show ?thesis by simp
  next
    case False
    with Cons.prems x obtain res where
      "complete_run client key completed (Some (last_cursor res)) (pages @ [res]) new"
      by (auto split: sum.splits if_splits)
    then show ?thesis by (rule Cons.IH)
  qed
  with hd x show ?case by simp
qed

lemma scan_accumulators:
  assumes step: "\<And>acc x. step acc x = \<lparr>cells = cells acc @ [x], amount = amount acc + v x\<rparr>"
  shows "acc \<in> set (scan step a xs) \<Longrightarrow>
         \<exists>k. 0 < k \<and> k \<le> length xs \<and>
             acc = \<lparr>cells = cells a @ take k xs, amount = amount a + sum_list (map v (take k xs))\<rparr>"
proof (induction xs arbitrary: a)
  case Nil
  then show ?case by simp
next
  case (Cons x xs)
  from Cons.prems have "acc = step a x \<or> acc \<in> set (scan step (step a x) xs)" by simp
  then show ?case
  proof
    assume "acc = step a x"
    then show ?thesis by (intro exI [of _ 1]) (simp add: step)
  next
    assume "acc \<in> set (scan step (step a x) xs)"
    from Cons.IH [OF this] obtain k where k: "0 < k" "k \<le> length xs"
      "acc = \<lparr>cells = cells (step a x) @ take k xs,
              amount = amount (step a x) + sum_list (map v (take k xs))\<rparr>" by blast
    then show ?thesis by (intro exI [of _ "Suc k"]) (simp add: step add.assoc)
  qed
qed

lemma ckb_scan_invariant:
  assumes "acc \<in> set (ckb_scan pages)"
  shows "amount acc = capacity_sum (cells acc) \<and> prefix (cells acc) (ckb_live_cells pages)"
proof -
  have step: "\<And>acc x. ckb_step acc x =
      \<lparr>cells = cells acc @ [x], amount = amount acc + capacity (output_cell x)\<rparr>"
    by (simp add: ckb_step_def)
  from scan_accumulators [of ckb_step "\<lambda>cell. capacity (output_cell cell)", OF step
      assms [unfolded ckb_scan_def]]
  show ?thesis
    by (auto simp: empty_accumulator_def capacity_sum_def take_is_prefix)
qed

lemma udt_scan_invariant:
  assumes "acc \<in> set (udt_scan pages)"
  shows "amount acc = udt_sum (cells acc) \<and> prefix (cells acc) (concat (map objects pages))"
proof -
  have step: "\<And>acc x. udt_step acc x =
      \<lparr>cells = cells acc @ [x], amount = amount acc + udt_amount x\<rparr>"
    by (simp add: udt_step_def)
  from scan_accumulators [of udt_step udt_amount, OF step assms [unfolded udt_scan_def]]
  show ?thesis
    by (auto simp: empty_accumulator_def udt_sum_def take_is_prefix)
qed

lemma set_takeWhile_inclusive: "set (takeWhile_inclusive P xs) \<subseteq> set xs"
  by (induction xs) auto

section \<open>Little-endian payloads\<close>

lemma length_le_bytes: "length (le_bytes k n) = k"
  by (induction k arbitrary: n) simp_all

lemma toBigUInt128LE_le_bytes: "toBigUInt128LE (le_bytes k n) = n mod 256 ^ k"
proof (induction k arbitrary: n)
  case 0
  show ?case by simp
next
  case (Suc k)
  have "unat (word_of_nat (n mod 256) :: byte) = n mod 256"
    by (simp add: unat_of_nat)
  with Suc show ?case
    by (simp add: mod_mult2_eq)
qed

lemma toBigUInt128LE_round_trip:
  "n < 2 ^ 128 \<Longrightarrow> toBigUInt128LE (take 16 (le_bytes 16 n @ rest)) = n"
proof -
  assume "n < 2 ^ 128"
  have "(256::nat) ^ 16 = 2 ^ 128" by simp
  with \<open>n < 2 ^ 128\<close> have "n mod 256 ^ 16 = n" by simp
  then show ?thesis by (simp add: length_le_bytes toBigUInt128LE_le_bytes)
qed

lemma udt_amount_udt_cell: "n < 2 ^ 128 \<Longrightarrow> udt_amount (udt_cell name n) = n"
  using toBigUInt128LE_round_trip [of n "[]"]
  by (simp add: udt_amount_def udt_cell_def example_cell_def)

lemma take_hex_bytes:
  "take (2 * n) (concat (map hex_byte bs)) = concat (map hex_byte (take n bs))"
proof (induction bs arbitrary: n)
  case Nil
  show ?case by simp
next
  case (Cons b bs)
  show ?case
  proof (cases n)
    case 0
    then show ?thesis by simp
  next
    case (Suc m)
    with Cons [of m] show ?thesis by (simp add: hex_byte_def)
  qed
qed

lemma slice_34_is_16_bytes:
  "take 34 (hex_string bs) = hex_string (take 16 bs)"
  using take_hex_bytes [of 16 bs] by (simp add: hex_string_def)

lemma udt_sum_decoded:
  "udt_sum cs = sum_list (map (\<lambda>cell. toBigUInt128LE (take 16 (output_data cell))) cs)"
  by (induction cs) (simp_all add: udt_sum_def udt_amount_def)

lemma scan_exact:
  assumes step: "\<And>acc x. step acc x = \<lparr>cells = cells acc @ [x], amount = amount acc + v x\<rparr>"
  shows "scan step a xs =
           map (\<lambda>k. \<lparr>cells = cells a @ take k xs,
                      amount = amount a + sum_list (map v (take k xs))\<rparr>)
             [1..<Suc (length xs)]"
proof (induction xs arbitrary: a)
  case Nil
  show ?case by simp
next
  case (Cons x xs)
  let ?f = "\<lambda>k. \<lparr>cells = cells a @ take k (x # xs),
                   amount = amount a + sum_list (map v (take k (x # xs)))\<rparr>"
  have upt: "[1..<Suc (length (x # xs))] = 1 # map Suc [1..<Suc (length xs)]"
    by (simp add: upt_conv_Cons map_Suc_upt del: upt_Suc)
  have a': "cells (step a x) = cells a @ [x]" "amount (step a x) = amount a + v x"
    by (simp_all add: step)
  have "scan step (step a x) xs =
      map (\<lambda>k. \<lparr>cells = cells (step a x) @ take k xs,
                  amount = amount (step a x) + sum_list (map v (take k xs))\<rparr>)
        [1..<Suc (length xs)]"
    by (rule Cons)
  also have "\<dots> = map (?f \<circ> Suc) [1..<Suc (length xs)]"
    by (simp only: a') (simp add: add.assoc comp_def del: upt_Suc)
  finally have tail: "scan step (step a x) xs = map (?f \<circ> Suc) [1..<Suc (length xs)]" .
  have "step a x = ?f 1" by (simp add: step)
  with tail have "scan step a (x # xs) = ?f 1 # map ?f (map Suc [1..<Suc (length xs)])"
    by (simp del: upt_Suc)
  then show ?case by (simp only: upt list.map)
qed

lemma udt_scan_exact:
  "udt_scan pages =
     map (\<lambda>k. \<lparr>cells = take k (concat (map objects pages)),
                amount = sum_list (map (\<lambda>cell. toBigUInt128LE (take 16 (output_data cell)))
                           (take k (concat (map objects pages))))\<rparr>)
       [1..<Suc (length (concat (map objects pages)))]"
proof -
  have step: "\<And>acc x. udt_step acc x =
      \<lparr>cells = cells acc @ [x],
       amount = amount acc + toBigUInt128LE (take 16 (output_data x))\<rparr>"
    by (simp add: udt_step_def udt_amount_def)
  from scan_exact [of udt_step "\<lambda>cell. toBigUInt128LE (take 16 (output_data cell))"
      empty_accumulator "concat (map objects pages)", OF step]
  show ?thesis by (simp add: udt_scan_def empty_accumulator_def)
qed

section \<open>Runs of the paging loop\<close>

lemma complete_run_Cons_iff:
  "complete_run client key completed cursor pages ((req, resp) # new) \<longleftrightarrow>
     req = \<lparr>search_key = key, after_cursor = cursor\<rparr> \<and> client req = resp \<and>
     ((\<exists>e. resp = Inl e) \<and> new = [] \<or>
      (\<exists>res. resp = Inr res \<and>
         (objects res = [] \<and> new = [] \<or>
          objects res \<noteq> [] \<and> completed (pages @ [res]) \<and> new = [] \<or>
          objects res \<noteq> [] \<and> \<not> completed (pages @ [res]) \<and>
          complete_run client key completed (Some (last_cursor res)) (pages @ [res]) new)))"
  by (cases resp) auto

lemma complete_run_cases [consumes 1, case_names failed empty completed more]:
  assumes "complete_run client key completed cursor pages (x # new)"
  obtains e where "x = (\<lparr>search_key = key, after_cursor = cursor\<rparr>, Inl e)"
      "client \<lparr>search_key = key, after_cursor = cursor\<rparr> = Inl e" "new = []"
  | res where "x = (\<lparr>search_key = key, after_cursor = cursor\<rparr>, Inr res)"
      "client \<lparr>search_key = key, after_cursor = cursor\<rparr> = Inr res" "objects res = []" "new = []"
  | res where "x = (\<lparr>search_key = key, after_cursor = cursor\<rparr>, Inr res)"
      "client \<lparr>search_key = key, after_cursor = cursor\<rparr> = Inr res" "objects res \<noteq> []"
      "completed (pages @ [res])" "new = []"
  | res where "x = (\<lparr>search_key = key, after_cursor = cursor\<rparr>, Inr res)"
      "client \<lparr>search_key = key, after_cursor = cursor\<rparr> = Inr res" "objects res \<noteq> []"
      "\<not> completed (pages @ [res])"
      "complete_run client key completed (Some (last_cursor res)) (pages @ [res]) new"
proof -
  obtain req resp where x: "x = (req, resp)" by (cases x)
  from assms [unfolded x complete_run_Cons_iff] x that show thesis by blast
qed

lemma complete_run_stop:
  "complete_run client key completed cursor pages new \<Longrightarrow>
   (case snd (last new) of
      Inl e \<Rightarrow> True
    | Inr res \<Rightarrow> objects res = [] \<or> completed (pages @ delivered new))"
proof (induction new arbitrary: cursor pages)
  case Nil
  then show ?case by simp
next
  case (Cons x new)
  from Cons.prems show ?case
  proof (cases rule: complete_run_cases)
    case (more res)
    from more(5) have "new \<noteq> []" by (rule complete_run_nonempty)
    with Cons.IH [OF more(5)] more(1,3) show ?thesis by (simp split: sum.splits)
  qed simp_all
qed

lemma complete_run_full:
  "complete_run client key completed cursor pages new \<Longrightarrow>
   snd (last new) = Inr res \<Longrightarrow> objects res = [] \<Longrightarrow>
   complete_run client key (\<lambda>pages. False) cursor pages' new"
proof (induction new arbitrary: cursor pages pages')
  case Nil
  then show ?case by simp
next
  case (Cons x new)
  from Cons.prems(1) show ?case
  proof (cases rule: complete_run_cases)
    case (failed e)
    then show ?thesis by (simp add: complete_run_Cons_iff del: complete_run.simps)
  next
    case (empty res')
    then show ?thesis by (simp add: complete_run_Cons_iff del: complete_run.simps)
  next
    case (completed res')
    with Cons.prems(2,3) show ?thesis by simp
  next
    case (more res')
    from more(5) have ne: "new \<noteq> []" by (rule complete_run_nonempty)
    with Cons.prems(2) have "snd (last new) = Inr res" by simp
    from Cons.IH [OF more(5) this Cons.prems(3), of "pages' @ [res']"] more(1,2,3)
    show ?thesis by (simp add: complete_run_Cons_iff del: complete_run.simps)
  qed
qed

lemma complete_run_early:
  "complete_run client key (\<lambda>pages. False) cursor pages' new \<Longrightarrow>
   \<forall>n. 0 < n \<longrightarrow> \<not> completed (pages @ take n (delivered new)) \<Longrightarrow>
   complete_run client key completed cursor pages new"
proof (induction new arbitrary: cursor pages pages')
  case Nil
  then show ?case by simp
next
  case (Cons x new)
  from Cons.prems(1) show ?case
  proof (cases rule: complete_run_cases)
    case (failed e)
    then show ?thesis by (simp add: complete_run_Cons_iff del: complete_run.simps)
  next
    case (empty res)
    then show ?thesis by (simp add: complete_run_Cons_iff del: complete_run.simps)
  next
    case (completed res)
    then show ?thesis by simp
  next
    case (more res)
    have nc: "\<not> completed (pages @ [res])"
      using Cons.prems(2) [rule_format, of 1] more(1,3) by simp
    have "\<forall>n. 0 < n \<longrightarrow> \<not> completed ((pages @ [res]) @ take n (delivered new))"
    proof (intro allI impI)
      fix n :: nat assume "0 < n"
      from Cons.prems(2) [rule_format, of "Suc n"] more(1,3)
      show "\<not> completed ((pages @ [res]) @ take n (delivered new))" by simp
    qed
    from Cons.IH [OF more(5) this] more(1,2,3) nc
    show ?thesis by (simp add: complete_run_Cons_iff del: complete_run.simps)
  qed
qed

lemma exhausts_result:
  "exhausts client key log \<Longrightarrow> run_result [] log = Inr (delivered log)"
  by (auto simp: exhausts_def run_result_def split: sum.splits)

lemma reduce_sum:
  "reduce (\<lambda>acc x. acc + v x) (a::nat) xs = a + sum_list (map v xs)"
  unfolding reduce_def by (induction xs arbitrary: a) simp_all

section \<open>Insufficient totals\<close>

lemma sum_take_le:
  "sum_list (map v (take k xs)) \<le> (sum_list (map v xs) :: nat)"
proof -
  have "sum_list (map v xs) = sum_list (map v (take k xs @ drop k xs))" by simp
  also have "\<dots> = sum_list (map v (take k xs)) + sum_list (map v (drop k xs))"
    by (simp del: append_take_drop_id)
  finally show ?thesis by simp
qed

lemma final_amount_insufficient:
  assumes step: "\<And>acc x. step acc x = \<lparr>cells = cells acc @ [x], amount = amount acc + v x\<rparr>"
  shows "amount (lastValueFrom (takeWhile_inclusive (\<lambda>acc. amount acc < T)
            (scan step empty_accumulator xs)) empty_accumulator) < T
         \<longleftrightarrow> sum_list (map v xs) < T"
    and "amount (lastValueFrom (takeWhile_inclusive (\<lambda>acc. amount acc < T)
            (scan step empty_accumulator xs)) empty_accumulator) < T
         \<Longrightarrow> amount (lastValueFrom (takeWhile_inclusive (\<lambda>acc. amount acc < T)
            (scan step empty_accumulator xs)) empty_accumulator) = sum_list (map v xs)"
proof -
  let ?acc = "lastValueFrom (takeWhile_inclusive (\<lambda>acc. amount acc < T)
            (scan step empty_accumulator xs)) empty_accumulator"
  from accumulate_from_empty [of step v xs T, OF step] obtain k where
    k: "k \<le> length xs" "?acc = \<lparr>cells = take k xs, amount = sum_list (map v (take k xs))\<rparr>"
      "k < length xs \<longrightarrow> T \<le> sum_list (map v (take k xs))"
    by blast
  have am: "amount ?acc = sum_list (map v (take k xs))" by (simp add: k(2))
  show eq: "amount ?acc < T \<Longrightarrow> amount ?acc = sum_list (map v xs)"
  proof -
    assume "amount ?acc < T"
    with am k(3) have "\<not> k < length xs" by auto
    with k(1) have "k = length xs" by simp
    with am show ?thesis by simp
  qed
  show "amount ?acc < T \<longleftrightarrow> sum_list (map v xs) < T"
  proof
    assume "amount ?acc < T"
    with eq show "sum_list (map v xs) < T" by simp
  next
    assume "sum_list (map v xs) < T"
    with sum_take_le [of v k xs] am show "amount ?acc < T" by simp
  qed
qed

lemma not_completed_below:
  assumes step: "\<And>acc x. step acc x = \<lparr>cells = cells acc @ [x], amount = amount acc + v x\<rparr>"
    and below: "sum_list (map v xs) < T"
  shows "\<not> takeWhile_completed (\<lambda>acc. amount acc < T) (scan step empty_accumulator xs)"
proof
  assume "takeWhile_completed (\<lambda>acc. amount acc < T) (scan step empty_accumulator xs)"
  then obtain acc where acc: "acc \<in> set (scan step empty_accumulator xs)" "\<not> amount acc < T"
    by (auto simp: takeWhile_completed_def list_ex_iff)
  from scan_amount_bound [of step v acc empty_accumulator xs, OF step acc(1)]
  have "amount acc \<le> sum_list (map v xs)" by (simp add: empty_accumulator_def)
  with below acc(2) show False by simp
qed

lemma ckb_live_cells_append:
  "ckb_live_cells (ps @ qs) = ckb_live_cells ps @ ckb_live_cells qs"
  by (simp add: ckb_live_cells_def)

lemma capacity_sum_take_pages:
  "capacity_sum (ckb_live_cells (take n pages)) \<le> capacity_sum (ckb_live_cells pages)"
proof -
  have "capacity_sum (ckb_live_cells pages) =
        capacity_sum (ckb_live_cells (take n pages @ drop n pages))" by simp
  also have "\<dots> = capacity_sum (ckb_live_cells (take n pages)) +
                  capacity_sum (ckb_live_cells (drop n pages))"
    by (simp only: ckb_live_cells_append capacity_sum_def map_append sum_list_append)
  finally show ?thesis by simp
qed

lemma udt_sum_take_pages:
  "udt_sum (concat (map objects (take n pages))) \<le> udt_sum (concat (map objects pages))"
proof -
  have "udt_sum (concat (map objects pages)) =
        udt_sum (concat (map objects (take n pages @ drop n pages)))" by simp
  also have "\<dots> = udt_sum (concat (map objects (take n pages))) +
                  udt_sum (concat (map objects (drop n pages)))"
    by (simp only: udt_sum_def map_append concat_append sum_list_append)
  finally show ?thesis by simp
qed

lemma ckb_insufficient:
  "amount (lastValueFrom (ckb_cells T pages) empty_accumulator) < T
     \<longleftrightarrow> capacity_sum (ckb_live_cells pages) < T"
  "amount (lastValueFrom (ckb_cells T pages) empty_accumulator) < T \<Longrightarrow>
     amount (lastValueFrom (ckb_cells T pages) empty_accumulator)
       = capacity_sum (ckb_live_cells pages)"
  unfolding ckb_cells_def ckb_scan_def capacity_sum_def
  by (rule final_amount_insufficient; simp add: ckb_step_def)+

lemma udt_insufficient:
  "amount (lastValueFrom (udt_cells T pages) empty_accumulator) < T
     \<longleftrightarrow> udt_sum (concat (map objects pages)) < T"
  "amount (lastValueFrom (udt_cells T pages) empty_accumulator) < T \<Longrightarrow>
     amount (lastValueFrom (udt_cells T pages) empty_accumulator)
       = udt_sum (concat (map objects pages))"
  unfolding udt_cells_def udt_scan_def udt_sum_def
  by (rule final_amount_insufficient; simp add: udt_step_def)+

lemma ckb_not_completed:
  assumes "capacity_sum (ckb_live_cells pages) < T"
  shows "\<not> ckb_completed T (take n pages)"
proof -
  from assms capacity_sum_take_pages [of n pages]
  have "sum_list (map (\<lambda>cell. capacity (output_cell cell)) (ckb_live_cells (take n pages))) < T"
    by (simp add: capacity_sum_def)
  from not_completed_below [of ckb_step "\<lambda>cell. capacity (output_cell cell)", OF _ this]
  show ?thesis by (simp add: ckb_completed_def ckb_scan_def ckb_step_def)
qed

lemma udt_not_completed:
  assumes "udt_sum (concat (map objects pages)) < T"
  shows "\<not> udt_completed T (take n pages)"
proof -
  from assms udt_sum_take_pages [of n pages]
  have "sum_list (map udt_amount (concat (map objects (take n pages)))) < T"
    by (simp add: udt_sum_def)
  from not_completed_below [of udt_step udt_amount, OF _ this]
  show ?thesis by (simp add: udt_completed_def udt_scan_def udt_step_def)
qed

lemma ckb_completed_enough:
  "ckb_completed T pages \<Longrightarrow> \<not> amount (lastValueFrom (ckb_cells T pages) empty_accumulator) < T"
  unfolding ckb_completed_def ckb_cells_def by (rule takeWhile_completed_last)

lemma udt_completed_enough:
  "udt_completed T pages \<Longrightarrow> \<not> amount (lastValueFrom (udt_cells T pages) empty_accumulator) < T"
  unfolding udt_completed_def udt_cells_def by (rule takeWhile_completed_last)

lemma collectCkbLiveCells_insufficient_iff:
  "collectCkbLiveCells provider address T = Some (Inl (NoEnoughCkbError info), log, calls) \<longleftrightarrow>
     exhausts (get_cells provider) (ckb_search_key (parseToScript provider address)) log \<and>
     capacity_sum (ckb_live_cells (delivered log)) < T \<and>
     info = \<lparr>err_lock = parseToScript provider address, expected = T,
             actual = capacity_sum (ckb_live_cells (delivered log))\<rparr> \<and>
     calls = fetch_calls (ckb_search_key (parseToScript provider address)) log"
    (is "?L \<longleftrightarrow> ?R")
proof
  let ?client = "get_cells provider"
  let ?key = "ckb_search_key (parseToScript provider address)"
  assume ?L
  then have run: "complete_run ?client ?key (ckb_completed T) None [] log"
    and res: "Inl (NoEnoughCkbError info) =
      (case run_result [] log of
         Inl e \<Rightarrow> Inl e
       | Inr pages \<Rightarrow>
           if amount (lastValueFrom (ckb_cells T pages) empty_accumulator) < T
           then Inl (NoEnoughCkbError
                  \<lparr>err_lock = parseToScript provider address, expected = T,
                   actual = amount (lastValueFrom (ckb_cells T pages) empty_accumulator)\<rparr>)
           else Inr (cells (lastValueFrom (ckb_cells T pages) empty_accumulator)))"
    and tr: "calls = fetch_calls ?key log"
    by (simp_all add: collectCkbLiveCells_iff)
  from res obtain res' where last: "snd (last log) = Inr res'"
    by (cases "snd (last log)") (auto simp: run_result_def)
  then have pages: "run_result [] log = Inr (delivered log)" by (simp add: run_result_def)
  with res have low: "amount (lastValueFrom (ckb_cells T (delivered log)) empty_accumulator) < T"
    and info: "info = \<lparr>err_lock = parseToScript provider address, expected = T,
        actual = amount (lastValueFrom (ckb_cells T (delivered log)) empty_accumulator)\<rparr>"
    by (auto split: if_splits)
  from complete_run_stop [OF run] last
  have "objects res' = [] \<or> ckb_completed T (delivered log)" by simp
  with low ckb_completed_enough have empty: "objects res' = []" by blast
  from complete_run_full [OF run last empty] last empty
  have "exhausts ?client ?key log" by (simp add: exhausts_def)
  with low info tr ckb_insufficient [of T "delivered log"] show ?R by simp
next
  let ?client = "get_cells provider"
  let ?key = "ckb_search_key (parseToScript provider address)"
  assume ?R
  then have ex: "exhausts ?client ?key log"
    and low: "capacity_sum (ckb_live_cells (delivered log)) < T"
    and info: "info = \<lparr>err_lock = parseToScript provider address, expected = T,
             actual = capacity_sum (ckb_live_cells (delivered log))\<rparr>"
    and tr: "calls = fetch_calls ?key log" by simp_all
  from ex have full: "complete_run ?client ?key (\<lambda>pages. False) None [] log"
    by (simp add: exhausts_def)
  have "\<forall>n. 0 < n \<longrightarrow> \<not> ckb_completed T ([] @ take n (delivered log))"
    using ckb_not_completed [OF low] by simp
  from complete_run_early [OF full this]
  have run: "complete_run ?client ?key (ckb_completed T) None [] log" .
  from low ckb_insufficient [of T "delivered log"]
  have "amount (lastValueFrom (ckb_cells T (delivered log)) empty_accumulator) < T"
    "amount (lastValueFrom (ckb_cells T (delivered log)) empty_accumulator)
       = capacity_sum (ckb_live_cells (delivered log))" by simp_all
  with run exhausts_result [OF ex] info tr show ?L
    by (simp add: collectCkbLiveCells_iff)
qed

lemma collectUdtCells_insufficient_iff:
  "collectUdtCells provider address udt T = Some (Inl (NoEnoughUdtError info), log, calls) \<longleftrightarrow>
     exhausts (get_cells provider) (udt_search_key (parseToScript provider address) udt) log \<and>
     udt_sum (concat (map objects (delivered log))) < T \<and>
     info = \<lparr>err_lock = parseToScript provider address, expected = T,
             actual = udt_sum (concat (map objects (delivered log)))\<rparr> \<and>
     calls = fetch_calls (udt_search_key (parseToScript provider address) udt) log"
    (is "?L \<longleftrightarrow> ?R")
proof
  let ?client = "get_cells provider"
  let ?key = "udt_search_key (parseToScript provider address) udt"
  assume ?L
  then have run: "complete_run ?client ?key (udt_completed T) None [] log"
    and res: "Inl (NoEnoughUdtError info) =
      (case run_result [] log of
         Inl e \<Rightarrow> Inl e
       | Inr pages \<Rightarrow>
           if amount (lastValueFrom (udt_cells T pages) empty_accumulator) < T
           then Inl (NoEnoughUdtError
                  \<lparr>err_lock = parseToScript provider address, expected = T,
                   actual = amount (lastValueFrom (udt_cells T pages) empty_accumulator)\<rparr>)
           else Inr (cells (lastValueFrom (udt_cells T pages) empty_accumulator)))"
    and tr: "calls = fetch_calls ?key log"
    by (simp_all add: collectUdtCells_iff)
  from res obtain res' where last: "snd (last log) = Inr res'"
    by (cases "snd (last log)") (auto simp: run_result_def)
  then have pages: "run_result [] log = Inr (delivered log)" by (simp add: run_result_def)
  with res have low: "amount (lastValueFrom (udt_cells T (delivered log)) empty_accumulator) < T"
    and info: "info = \<lparr>err_lock = parseToScript provider address, expected = T,
        actual = amount (lastValueFrom (udt_cells T (delivered log)) empty_accumulator)\<rparr>"
    by (auto split: if_splits)
  from complete_run_stop [OF run] last
  have "objects res' = [] \<or> udt_completed T (delivered log)" by simp
  with low udt_completed_enough have empty: "objects res' = []" by blast
  from complete_run_full [OF run last empty] last empty
  have "exhausts ?client ?key log" by (simp add: exhausts_def)
  with low info tr udt_insufficient [of T "delivered log"] show ?R by simp
next
  let ?client = "get_cells provider"
  let ?key = "udt_search_key (parseToScript provider address) udt"
  assume ?R
  then have ex: "exhausts ?client ?key log"
    and low: "udt_sum (concat (map objects (delivered log))) < T"
    and info: "info = \<lparr>err_lock = parseToScript provider address, expected = T,
             actual = udt_sum (concat (map objects (delivered log)))\<rparr>"
    and tr: "calls = fetch_calls ?key log" by simp_all
  from ex have full: "complete_run ?client ?key (\<lambda>pages. False) None [] log"
    by (simp add: exhausts_def)
  have "\<forall>n. 0 < n \<longrightarrow> \<not> udt_completed T ([] @ take n (delivered log))"
    using udt_not_completed [OF low] by simp
  from complete_run_early [OF full this]
  have run: "complete_run ?client ?key (udt_completed T) None [] log" .
  from low udt_insufficient [of T "delivered log"]
  have "amount (lastValueFrom (udt_cells T (delivered log)) empty_accumulator) < T"
    "amount (lastValueFrom (udt_cells T (delivered log)) empty_accumulator)
       = udt_sum (concat (map objects (delivered log)))" by simp_all
  with run exhausts_result [OF ex] info tr show ?L
    by (simp add: collectUdtCells_iff)
qed

section \<open>Full scans and the order of requests\<close>

lemma getCkbLiveCellsBalance_full_scan:
  "getCkbLiveCellsBalance provider address = Some (Inr v, log, calls) \<longleftrightarrow>
     exhausts (get_cells provider) (ckb_search_key (parseToScript provider address)) log \<and>
     v = capacity_sum (ckb_live_cells (delivered log)) \<and>
     calls = fetch_calls (ckb_search_key (parseToScript provider address)) log"
    (is "?L \<longleftrightarrow> ?R")
proof
  let ?client = "get_cells provider"
  let ?key = "ckb_search_key (parseToScript provider address)"
  assume ?L
  then have run: "complete_run ?client ?key (\<lambda>pages. False) None [] log"
    and res: "Inr v =
      (case run_result [] log of
         Inl e \<Rightarrow> Inl e
       | Inr pages \<Rightarrow>
           Inr (reduce (\<lambda>balance cell. balance + capacity (output_cell cell)) 0
                  (ckb_live_cells pages)))"
    and tr: "calls = fetch_calls ?key log"
    by (simp_all add: getCkbLiveCellsBalance_iff)
  from res obtain res' where last: "snd (last log) = Inr res'"
    by (cases "snd (last log)") (auto simp: run_result_def)
  then have pages: "run_result [] log = Inr (delivered log)" by (simp add: run_result_def)
  from complete_run_stop [OF run] last have "objects res' = []" by simp
  with run last have "exhausts ?client ?key log" by (simp add: exhausts_def)
  with res pages tr show ?R by (simp add: reduce_sum capacity_sum_def)
next
  assume ?R
  then have ex: "exhausts (get_cells provider)
      (ckb_search_key (parseToScript provider address)) log"
    and v: "v = capacity_sum (ckb_live_cells (delivered log))"
    and tr: "calls = fetch_calls (ckb_search_key (parseToScript provider address)) log"
    by simp_all
  from ex have "complete_run (get_cells provider)
      (ckb_search_key (parseToScript provider address)) (\<lambda>pages. False) None [] log"
    by (simp add: exhausts_def)
  with exhausts_result [OF ex] v tr show ?L
    by (simp add: getCkbLiveCellsBalance_iff reduce_sum capacity_sum_def)
qed

lemma getUdtBalance_full_scan:
  "getUdtBalance provider address udt = Some (Inr v, log, calls) \<longleftrightarrow>
     exhausts (get_cells provider) (udt_search_key (parseToScript provider address) udt) log \<and>
     v = udt_sum (concat (map objects (delivered log))) \<and>
     calls = fetch_calls (udt_search_key (parseToScript provider address) udt) log"
    (is "?L \<longleftrightarrow> ?R")
proof
  let ?client = "get_cells provider"
  let ?key = "udt_search_key (parseToScript provider address) udt"
  assume ?L
  then have run: "complete_run ?client ?key (\<lambda>pages. False) None [] log"
    and res: "Inr v =
      (case run_result [] log of
         Inl e \<Rightarrow> Inl e
       | Inr pages \<Rightarrow>
           Inr (reduce (\<lambda>acc resolvedCell. acc + udt_amount resolvedCell) 0
                  (concat (map objects pages))))"
    and tr: "calls = fetch_calls ?key log"
    by (simp_all add: getUdtBalance_iff)
  from res obtain res' where last: "snd (last log) = Inr res'"
    by (cases "snd (last log)") (auto simp: run_result_def)
  then have pages: "run_result [] log = Inr (delivered log)" by (simp add: run_result_def)
  from complete_run_stop [OF run] last have "objects res' = []" by simp
  with run last have "exhausts ?client ?key log" by (simp add: exhausts_def)
  with res pages tr show ?R by (simp add: reduce_sum udt_sum_def)
next
  assume ?R
  then have ex: "exhausts (get_cells provider)
      (udt_search_key (parseToScript provider address) udt) log"
    and v: "v = udt_sum (concat (map objects (delivered log)))"
    and tr: "calls = fetch_calls (udt_search_key (parseToScript provider address) udt) log"
    by simp_all
  from ex have "complete_run (get_cells provider)
      (udt_search_key (parseToScript provider address) udt) (\<lambda>pages. False) None [] log"
    by (simp add: exhausts_def)
  with exhausts_result [OF ex] v tr show ?L
    by (simp add: getUdtBalance_iff reduce_sum udt_sum_def)
qed

lemma balance_failure_is_transport:
  "getCkbLiveCellsBalance provider address = Some (Inl e, log, calls) \<Longrightarrow>
     \<exists>msg. e = TransportError msg"
  "getUdtBalance provider address udt = Some (Inl e, log', calls') \<Longrightarrow>
     \<exists>msg. e = TransportError msg"
  by (auto simp: getCkbLiveCellsBalance_iff getUdtBalance_iff run_result_def split: sum.splits)

lemma complete_run_chain:
  "complete_run client key completed cursor pages new \<Longrightarrow>
   after_cursor (fst (hd new)) = cursor \<and>
   (\<forall>i. Suc i < length new \<longrightarrow>
      (\<exists>res. snd (new ! i) = Inr res \<and> objects res \<noteq> [] \<and>
             after_cursor (fst (new ! Suc i)) = Some (last_cursor res)))"
proof (induction new arbitrary: cursor pages)
  case Nil
  then show ?case by simp
next
  case (Cons x new)
  from Cons.prems show ?case
  proof (cases rule: complete_run_cases)
    case (more res)
    from more(5) have ne: "new \<noteq> []" by (rule complete_run_nonempty)
    from Cons.IH [OF more(5)] have hd: "after_cursor (fst (hd new)) = Some (last_cursor res)"
      and tl: "\<forall>i. Suc i < length new \<longrightarrow>
        (\<exists>res. snd (new ! i) = Inr res \<and> objects res \<noteq> [] \<and>
               after_cursor (fst (new ! Suc i)) = Some (last_cursor res))" by simp_all
    have "\<forall>i. Suc i < length (x # new) \<longrightarrow>
        (\<exists>res. snd ((x # new) ! i) = Inr res \<and> objects res \<noteq> [] \<and>
               after_cursor (fst ((x # new) ! Suc i)) = Some (last_cursor res))"
    proof (intro allI impI)
      fix i assume i: "Suc i < length (x # new)"
      show "\<exists>res. snd ((x # new) ! i) = Inr res \<and> objects res \<noteq> [] \<and>
               after_cursor (fst ((x # new) ! Suc i)) = Some (last_cursor res)"
      proof (cases i)
        case 0
        with more(1,3) hd ne show ?thesis by (simp add: hd_conv_nth)
      next
        case (Suc j)
        with i tl show ?thesis by simp
      qed
    qed
    with more(1) show ?thesis by simp
  qed simp_all
qed

section \<open>The two polling loops\<close>

declare await_commit.simps [code]

declare await_indexer.simps [code]

lemma ball_upt_Suc_shift:
  "(\<forall>j \<in> {0..<Suc k}. P j) \<longleftrightarrow> P 0 \<and> (\<forall>j \<in> {0..<k}. P (Suc j))"
  by (auto simp: less_Suc_eq_0_disj)

lemma map_upt_Suc_shift: "map f [0..<Suc k] = f 0 # map (\<lambda>j. f (Suc j)) [0..<k]"
  by (simp only: upt_conv_Cons [of 0 "Suc k"] map_Suc_upt [symmetric] list.map map_map comp_def)

lemma commit_pending_0: "commit_pending rpc txHash start timeout interval w 0"
  by (simp add: commit_pending_def)

lemma commit_pending_Suc:
  "commit_pending rpc txHash start timeout interval w (Suc k) \<longleftrightarrow>
     now rpc w - start \<le> timeout \<and>
     (case fst (get_transaction rpc txHash w) of Inl e \<Rightarrow> False | Inr tx \<Rightarrow> \<not> committed tx) \<and>
     commit_pending rpc txHash start timeout interval (commit_round rpc txHash interval w) k"
  unfolding commit_pending_def ball_upt_Suc_shift funpow_Suc_right comp_def
  by auto

lemma commit_polls_0: "commit_polls rpc txHash interval w 0 = []"
  by (simp add: commit_polls_def)

lemma commit_polls_Suc:
  "commit_polls rpc txHash interval w (Suc k) =
     CommitPoll (now rpc w)
       (case fst (get_transaction rpc txHash w) of Inl e \<Rightarrow> None | Inr tx \<Rightarrow> tx)
     # commit_polls rpc txHash interval (commit_round rpc txHash interval w) k"
  unfolding commit_polls_def map_upt_Suc_shift funpow_Suc_right comp_def
  by simp

lemma await_commit_complete:
  assumes "commit_pending rpc txHash start timeout interval w k"
    and "commit_end rpc txHash start timeout ((commit_round rpc txHash interval ^^ k) w) r w' evs"
  shows "await_commit rpc txHash start timeout interval w events
         = Some (r, w', events @ commit_polls rpc txHash interval w k @ evs)"
  using assms
proof (induction k arbitrary: w events)
  case 0
  then show ?case
    by (subst await_commit.simps)
       (auto simp: commit_end_def commit_polls_0 split: if_splits prod.splits sum.splits)
next
  case (Suc k)
  from Suc.prems(1) have head: "now rpc w - start \<le> timeout"
    and poll: "case fst (get_transaction rpc txHash w) of Inl e \<Rightarrow> False | Inr tx \<Rightarrow> \<not> committed tx"
    and rest: "commit_pending rpc txHash start timeout interval (commit_round rpc txHash interval w) k"
    by (simp_all add: commit_pending_Suc)
  obtain resp w1 where call: "get_transaction rpc txHash w = (resp, w1)"
    by (cases "get_transaction rpc txHash w")
  with poll obtain tx where tx: "resp = Inr tx" "\<not> committed tx"
    by (cases resp) simp_all
  from call have round: "commit_round rpc txHash interval w = asyncSleep rpc interval w1"
    by (simp add: commit_round_def)
  from Suc.prems(2) have "commit_end rpc txHash start timeout
      ((commit_round rpc txHash interval ^^ k) (commit_round rpc txHash interval w)) r w' evs"
    by (simp add: funpow_swap1)
  from Suc.IH [OF rest this, of "events @ [CommitPoll (now rpc w) tx]"] head call tx round
  show ?case
    by (subst await_commit.simps) (simp add: commit_polls_Suc)
qed

lemma await_commit_sound:
  assumes "await_commit rpc txHash start timeout interval w events = Some y"
  shows "\<exists>k evs. commit_pending rpc txHash start timeout interval w k \<and>
           commit_end rpc txHash start timeout ((commit_round rpc txHash interval ^^ k) w)
             (fst y) (fst (snd y)) evs \<and>
           snd (snd y) = events @ commit_polls rpc txHash interval w k @ evs"
proof (rule await_commit.raw_induct
    [where P = "\<lambda>rpc txHash start timeout interval w events y.
       \<exists>k evs. commit_pending rpc txHash start timeout interval w k \<and>
           commit_end rpc txHash start timeout ((commit_round rpc txHash interval ^^ k) w)
             (fst y) (fst (snd y)) evs \<and>
           snd (snd y) = events @ commit_polls rpc txHash interval w k @ evs", OF _ assms],
    goal_cases)
  case (1 f rpc txHash start timeout interval w events y)
  show ?case
  proof (cases "now rpc w - start \<le> timeout")
    case False
    with "1"(2) have "y = (Inr None, w, events @ [CommitTimeout (now rpc w)])" by simp
    with False show ?thesis
      by (intro exI [of _ 0] exI [of _ "[CommitTimeout (now rpc w)]"])
         (simp add: commit_pending_0 commit_polls_0 commit_end_def)
  next
    case True
    note admitted = True
    obtain resp w1 where call: "get_transaction rpc txHash w = (resp, w1)"
      by (cases "get_transaction rpc txHash w")
    show ?thesis
    proof (cases resp)
      case (Inl e)
      with "1"(2) admitted call have "y = (Inl (TransportError e), w1, events)" by simp
      with admitted call Inl show ?thesis
        by (intro exI [of _ 0] exI [of _ "[]"])
           (simp add: commit_pending_0 commit_polls_0 commit_end_def)
    next
      case (Inr tx)
      show ?thesis
      proof (cases "committed tx")
        case True
        with "1"(2) admitted call Inr
        have "y = (Inr (map_option transaction tx), w1, events @ [CommitPoll (now rpc w) tx])"
          by simp
        with admitted call Inr True show ?thesis
          by (intro exI [of _ 0] exI [of _ "[CommitPoll (now rpc w) tx]"])
             (simp add: commit_pending_0 commit_polls_0 commit_end_def)
      next
        case False
        with "1"(2) admitted call Inr
        have "f rpc txHash start timeout interval (asyncSleep rpc interval w1)
                (events @ [CommitPoll (now rpc w) tx]) = Some y" by simp
        from "1"(1) [OF this] obtain k evs where
          pend: "commit_pending rpc txHash start timeout interval (asyncSleep rpc interval w1) k"
          and fin: "commit_end rpc txHash start timeout
             ((commit_round rpc txHash interval ^^ k) (asyncSleep rpc interval w1))
             (fst y) (fst (snd y)) evs"
          and ev: "snd (snd y) = (events @ [CommitPoll (now rpc w) tx]) @
             commit_polls rpc txHash interval (asyncSleep rpc interval w1) k @ evs"
          by blast
        from call have round: "commit_round rpc txHash interval w = asyncSleep rpc interval w1"
          by (simp add: commit_round_def)
        from pend admitted call Inr False round
        have "commit_pending rpc txHash start timeout interval w (Suc k)"
          by (simp add: commit_pending_Suc)
        moreover from fin round
        have "commit_end rpc txHash start timeout ((commit_round rpc txHash interval ^^ Suc k) w)
             (fst y) (fst (snd y)) evs"
          by (simp add: funpow_swap1)
        moreover from ev call Inr round
        have "snd (snd y) = events @ commit_polls rpc txHash interval w (Suc k) @ evs"
          by (simp add: commit_polls_Suc)
        ultimately show ?thesis by blast
      qed
    qed
  qed
qed

lemma await_commit_iff:
  "await_commit rpc txHash start timeout interval w events = Some (r, w', events') \<longleftrightarrow>
     (\<exists>k evs. commit_pending rpc txHash start timeout interval w k \<and>
        commit_end rpc txHash start timeout ((commit_round rpc txHash interval ^^ k) w) r w' evs \<and>
        events' = events @ commit_polls rpc txHash interval w k @ evs)"
  using await_commit_sound [of rpc txHash start timeout interval w events "(r, w', events')"]
    await_commit_complete [of rpc txHash start timeout interval w _ r w' _ events]
  by auto


lemma tip_pending_0: "tip_pending rpc start timeout interval rpcTip w 0"
  by (simp add: tip_pending_def)

lemma tip_pending_Suc:
  "tip_pending rpc start timeout interval rpcTip w (Suc k) \<longleftrightarrow>
     now rpc w - start \<le> timeout \<and>
     (case fst (get_tip rpc w) of
        Inl e \<Rightarrow> False
      | Inr block_number \<Rightarrow> \<not> js_ge (Number block_number) rpcTip) \<and>
     tip_pending rpc start timeout interval rpcTip (tip_round rpc interval w) k"
  unfolding tip_pending_def ball_upt_Suc_shift funpow_Suc_right comp_def
  by auto

lemma tip_polls_0: "tip_polls rpc interval w 0 = []"
  by (simp add: tip_polls_def)

lemma tip_polls_Suc:
  "tip_polls rpc interval w (Suc k) =
     TipPoll (now rpc w)
       (case fst (get_tip rpc w) of Inl e \<Rightarrow> 0 | Inr block_number \<Rightarrow> block_number)
     # tip_polls rpc interval (tip_round rpc interval w) k"
  unfolding tip_polls_def map_upt_Suc_shift funpow_Suc_right comp_def
  by simp

lemma await_indexer_complete:
  assumes "tip_pending rpc start timeout interval rpcTip w k"
    and "tip_end rpc start timeout rpcTip ((tip_round rpc interval ^^ k) w) r w' evs"
  shows "await_indexer rpc start timeout interval rpcTip w events
         = Some (r, w', events @ tip_polls rpc interval w k @ evs)"
  using assms
proof (induction k arbitrary: w events)
  case 0
  then show ?case
    by (subst await_indexer.simps)
       (auto simp: tip_end_def tip_polls_0 split: if_splits prod.splits sum.splits)
next
  case (Suc k)
  from Suc.prems(1) have head: "now rpc w - start \<le> timeout"
    and poll: "case fst (get_tip rpc w) of
                 Inl e \<Rightarrow> False
               | Inr block_number \<Rightarrow> \<not> js_ge (Number block_number) rpcTip"
    and rest: "tip_pending rpc start timeout interval rpcTip (tip_round rpc interval w) k"
    by (simp_all add: tip_pending_Suc)
  obtain resp w1 where call: "get_tip rpc w = (resp, w1)"
    by (cases "get_tip rpc w")
  with poll obtain n where n: "resp = Inr n" "\<not> js_ge (Number n) rpcTip"
    by (cases resp) simp_all
  from call have round: "tip_round rpc interval w = asyncSleep rpc interval w1"
    by (simp add: tip_round_def)
  from Suc.prems(2) have "tip_end rpc start timeout rpcTip
      ((tip_round rpc interval ^^ k) (tip_round rpc interval w)) r w' evs"
    by (simp add: funpow_swap1)
  from Suc.IH [OF rest this, of "events @ [TipPoll (now rpc w) n]"] head call n round
  show ?case
    by (subst await_indexer.simps) (simp add: tip_polls_Suc)
qed

lemma await_indexer_sound:
  assumes "await_indexer rpc start timeout interval rpcTip w events = Some y"
  shows "\<exists>k evs. tip_pending rpc start timeout interval rpcTip w k \<and>
           tip_end rpc start timeout rpcTip ((tip_round rpc interval ^^ k) w)
             (fst y) (fst (snd y)) evs \<and>
           snd (snd y) = events @ tip_polls rpc interval w k @ evs"
proof (rule await_indexer.raw_induct
    [where P = "\<lambda>rpc start timeout interval rpcTip w events y.
       \<exists>k evs. tip_pending rpc start timeout interval rpcTip w k \<and>
           tip_end rpc start timeout rpcTip ((tip_round rpc interval ^^ k) w)
             (fst y) (fst (snd y)) evs \<and>
           snd (snd y) = events @ tip_polls rpc interval w k @ evs", OF _ assms],
    goal_cases)
  case (1 f rpc start timeout interval rpcTip w events y)
  show ?case
  proof (cases "now rpc w - start \<le> timeout")
    case False
    with "1"(2) have "y = (Inr (), w, events @ [TipTimeout (now rpc w)])" by simp
    with False show ?thesis
      by (intro exI [of _ 0] exI [of _ "[TipTimeout (now rpc w)]"])
         (simp add: tip_pending_0 tip_polls_0 tip_end_def)
  next
    case True
    note admitted = True
    obtain resp w1 where call: "get_tip rpc w = (resp, w1)"
      by (cases "get_tip rpc w")
    show ?thesis
    proof (cases resp)
      case (Inl e)
      with "1"(2) admitted call have "y = (Inl (TransportError e), w1, events)" by simp
      with admitted call Inl show ?thesis
        by (intro exI [of _ 0] exI [of _ "[]"])
           (simp add: tip_pending_0 tip_polls_0 tip_end_def)
    next
      case (Inr n)
      show ?thesis
      proof (cases "js_ge (Number n) rpcTip")
        case True
        with "1"(2) admitted call Inr
        have "y = (Inr (), w1, events @ [TipPoll (now rpc w) n])"
          by simp
        with admitted call Inr True show ?thesis
          by (intro exI [of _ 0] exI [of _ "[TipPoll (now rpc w) n]"])
             (simp add: tip_pending_0 tip_polls_0 tip_end_def)
      next
        case False
        with "1"(2) admitted call Inr
        have "f rpc start timeout interval rpcTip (asyncSleep rpc interval w1)
                (events @ [TipPoll (now rpc w) n]) = Some y" by simp
        from "1"(1) [OF this] obtain k evs where
          pend: "tip_pending rpc start timeout interval rpcTip (asyncSleep rpc interval w1) k"
          and fin: "tip_end rpc start timeout rpcTip
             ((tip_round rpc interval ^^ k) (asyncSleep rpc interval w1))
             (fst y) (fst (snd y)) evs"
          and ev: "snd (snd y) = (events @ [TipPoll (now rpc w) n]) @
             tip_polls rpc interval (asyncSleep rpc interval w1) k @ evs"
          by blast
        from call have round: "tip_round rpc interval w = asyncSleep rpc interval w1"
          by (simp add: tip_round_def)
        from pend admitted call Inr False round
        have "tip_pending rpc start timeout interval rpcTip w (Suc k)"
          by (simp add: tip_pending_Suc)
        moreover from fin round
        have "tip_end rpc start timeout rpcTip ((tip_round rpc interval ^^ Suc k) w)
             (fst y) (fst (snd y)) evs"
          by (simp add: funpow_swap1)
        moreover from ev call Inr round
        have "snd (snd y) = events @ tip_polls rpc interval w (Suc k) @ evs"
          by (simp add: tip_polls_Suc)
        ultimately show ?thesis by blast
      qed
    qed
  qed
qed

lemma await_indexer_iff:
  "await_indexer rpc start timeout interval rpcTip w events = Some (r, w', events') \<longleftrightarrow>
     (\<exists>k evs. tip_pending rpc start timeout interval rpcTip w k \<and>
        tip_end rpc start timeout rpcTip ((tip_round rpc interval ^^ k) w) r w' evs \<and>
        events' = events @ tip_polls rpc interval w k @ evs)"
  using await_indexer_sound [of rpc start timeout interval rpcTip w events "(r, w', events')"]
    await_indexer_complete [of rpc start timeout interval rpcTip w _ r w' _ events]
  by auto

lemma await_commit_returns:
  assumes clock: "clock_advances rpc" and iv: "0 < interval"
  shows "await_commit rpc txHash start timeout interval w events \<noteq> None"
proof (induction "nat (start + timeout + 1 - now rpc w)" arbitrary: w events rule: less_induct)
  case less
  show ?case
  proof (cases "now rpc w - start \<le> timeout")
    case False
    then show ?thesis by (subst await_commit.simps) simp
  next
    case True
    obtain resp w' where call: "get_transaction rpc txHash w = (resp, w')"
      by (cases "get_transaction rpc txHash w")
    from clock call have "now rpc w \<le> now rpc w'"
      unfolding clock_advances_def by (metis snd_conv)
    moreover from clock have "now rpc w' + interval \<le> now rpc (asyncSleep rpc interval w')"
      unfolding clock_advances_def by blast
    ultimately have "now rpc w < now rpc (asyncSleep rpc interval w')" using iv by simp
    with True have "nat (start + timeout + 1 - now rpc (asyncSleep rpc interval w'))
        < nat (start + timeout + 1 - now rpc w)" by simp
    from less [OF this] have
      "\<And>events. await_commit rpc txHash start timeout interval (asyncSleep rpc interval w')
         events \<noteq> None" .
    with True call show ?thesis
      by (subst await_commit.simps) (simp split: sum.splits)
  qed
qed

lemma await_indexer_returns:
  assumes clock: "clock_advances rpc" and iv: "0 < interval"
  shows "await_indexer rpc start timeout interval rpcTip w events \<noteq> None"
proof (induction "nat (start + timeout + 1 - now rpc w)" arbitrary: w events rule: less_induct)
  case less
  show ?case
  proof (cases "now rpc w - start \<le> timeout")
    case False
    then show ?thesis by (subst await_indexer.simps) simp
  next
    case True
    obtain resp w' where call: "get_tip rpc w = (resp, w')"
      by (cases "get_tip rpc w")
    from clock call have "now rpc w \<le> now rpc w'"
      unfolding clock_advances_def by (metis snd_conv)
    moreover from clock have "now rpc w' + interval \<le> now rpc (asyncSleep rpc interval w')"
      unfolding clock_advances_def by blast
    ultimately have "now rpc w < now rpc (asyncSleep rpc interval w')" using iv by simp
    with True have "nat (start + timeout + 1 - now rpc (asyncSleep rpc interval w'))
        < nat (start + timeout + 1 - now rpc w)" by simp
    from less [OF this] have
      "\<And>events. await_indexer rpc start timeout interval rpcTip (asyncSleep rpc interval w')
         events \<noteq> None" .
    with True call show ?thesis
      by (subst await_indexer.simps) (simp split: sum.splits)
  qed
qed

lemma wait_unfold:
  "waitForTransactionCommitted rpc txHash options w =
     (case await_commit rpc txHash (now rpc w) (wait_timeout options) (wait_interval options) w [] of
        None \<Rightarrow> None
      | Some (Inl e, w1, events) \<Rightarrow> Some (Inl e, w1, events)
      | Some (Inr result, w1, events) \<Rightarrow>
          (case get_tip_block_number rpc w1 of
             (Inl e, w2) \<Rightarrow> Some (Inl (TransportError e), w2, events)
           | (Inr tip, w2) \<Rightarrow>
               (case await_indexer rpc (now rpc w) (wait_timeout options) (wait_interval options)
                       (Number tip) w2 (events @ [LedgerTip tip]) of
                  None \<Rightarrow> None
                | Some (Inl e, w3, events') \<Rightarrow> Some (Inl e, w3, events')
                | Some (Inr u, w3, events') \<Rightarrow> Some (Inr result, w3, events'))))"
  by (simp add: waitForTransactionCommitted_def Let_def)

lemma wait_returns:
  assumes clock: "clock_advances rpc" and iv: "0 < wait_interval options"
  shows "waitForTransactionCommitted rpc txHash options w \<noteq> None"
proof -
  let ?interval = "wait_interval options"
  let ?timeout = "wait_timeout options"
  from await_commit_returns [OF clock iv] obtain y1 where
    y1: "await_commit rpc txHash (now rpc w) ?timeout ?interval w [] = Some y1" by blast
  obtain r1 w1 events1 where y1': "y1 = (r1, w1, events1)" by (cases y1)
  show ?thesis
  proof (cases r1)
    case (Inl e)
    with y1 y1' show ?thesis by (simp add: wait_unfold)
  next
    case (Inr result)
    obtain tip w2 where tip: "get_tip_block_number rpc w1 = (tip, w2)"
      by (cases "get_tip_block_number rpc w1")
    show ?thesis
    proof (cases tip)
      case (Inl e)
      with y1 y1' Inr tip show ?thesis by (simp add: wait_unfold)
    next
      case (Inr rpcTip)
      from await_indexer_returns [OF clock iv] obtain y2 where
        "await_indexer rpc (now rpc w) ?timeout ?interval (Number rpcTip) w2
           (events1 @ [LedgerTip rpcTip]) = Some y2" by blast
      with y1 y1' \<open>r1 = Inr result\<close> tip Inr show ?thesis
        by (cases y2) (simp add: wait_unfold split: sum.splits)
    qed
  qed
qed

lemma wait_success_iff:
  "waitForTransactionCommitted rpc txHash options w = Some (Inr result, w', events) \<longleftrightarrow>
     (\<exists>k m w1 tip w2 ev1 ev2.
        commit_pending rpc txHash (now rpc w) (wait_timeout options) (wait_interval options) w k \<and>
        commit_end rpc txHash (now rpc w) (wait_timeout options)
          ((commit_round rpc txHash (wait_interval options) ^^ k) w) (Inr result) w1 ev1 \<and>
        get_tip_block_number rpc w1 = (Inr tip, w2) \<and>
        tip_pending rpc (now rpc w) (wait_timeout options) (wait_interval options)
          (Number tip) w2 m \<and>
        tip_end rpc (now rpc w) (wait_timeout options) (Number tip)
          ((tip_round rpc (wait_interval options) ^^ m) w2) (Inr ()) w' ev2 \<and>
        events = commit_polls rpc txHash (wait_interval options) w k @ ev1 @ [LedgerTip tip] @
                 tip_polls rpc (wait_interval options) w2 m @ ev2)"
    (is "?L \<longleftrightarrow> ?R")
proof
  assume ?L
  then obtain r1 w1 events1 where
    y1: "await_commit rpc txHash (now rpc w) (wait_timeout options) (wait_interval options) w []
         = Some (r1, w1, events1)"
    by (auto simp: wait_unfold split: option.splits)
  with \<open>?L\<close> have r1: "r1 = Inr result"
    by (cases r1) (auto simp: wait_unfold split: prod.splits sum.splits option.splits)
  obtain t w2 where tip: "get_tip_block_number rpc w1 = (t, w2)"
    by (cases "get_tip_block_number rpc w1")
  with \<open>?L\<close> y1 r1 obtain tip where t: "t = Inr tip"
    by (cases t) (auto simp: wait_unfold)
  with \<open>?L\<close> y1 r1 tip
  have y2: "await_indexer rpc (now rpc w) (wait_timeout options) (wait_interval options)
      (Number tip) w2 (events1 @ [LedgerTip tip]) = Some (Inr (), w', events)"
    by (auto simp: wait_unfold split: option.splits sum.splits)
  from y1 r1 obtain k ev1 where
    "commit_pending rpc txHash (now rpc w) (wait_timeout options) (wait_interval options) w k"
    "commit_end rpc txHash (now rpc w) (wait_timeout options)
          ((commit_round rpc txHash (wait_interval options) ^^ k) w) (Inr result) w1 ev1"
    "events1 = commit_polls rpc txHash (wait_interval options) w k @ ev1"
    by (auto simp: await_commit_iff)
  moreover from y2 obtain m ev2 where
    "tip_pending rpc (now rpc w) (wait_timeout options) (wait_interval options) (Number tip) w2 m"
    "tip_end rpc (now rpc w) (wait_timeout options) (Number tip)
          ((tip_round rpc (wait_interval options) ^^ m) w2) (Inr ()) w' ev2"
    "events = (events1 @ [LedgerTip tip]) @ tip_polls rpc (wait_interval options) w2 m @ ev2"
    by (auto simp: await_indexer_iff)
  ultimately show ?R using tip t by (simp; blast)
next
  assume ?R
  then obtain k m w1 tip w2 ev1 ev2 where
    c: "commit_pending rpc txHash (now rpc w) (wait_timeout options) (wait_interval options) w k"
       "commit_end rpc txHash (now rpc w) (wait_timeout options)
          ((commit_round rpc txHash (wait_interval options) ^^ k) w) (Inr result) w1 ev1"
    and tip: "get_tip_block_number rpc w1 = (Inr tip, w2)"
    and t: "tip_pending rpc (now rpc w) (wait_timeout options) (wait_interval options)
          (Number tip) w2 m"
       "tip_end rpc (now rpc w) (wait_timeout options) (Number tip)
          ((tip_round rpc (wait_interval options) ^^ m) w2) (Inr ()) w' ev2"
    and ev: "events = commit_polls rpc txHash (wait_interval options) w k @ ev1 @ [LedgerTip tip] @
                 tip_polls rpc (wait_interval options) w2 m @ ev2"
    by blast
  from await_commit_complete [OF c, of "[]"] tip
    await_indexer_complete [OF t,
      of "commit_polls rpc txHash (wait_interval options) w k @ ev1 @ [LedgerTip tip]"] ev
  show ?L by (simp add: wait_unfold)
qed


lemma wait_failure:
  assumes "waitForTransactionCommitted rpc txHash options w = Some (Inl e, w', events)"
  shows "\<exists>msg. e = TransportError msg"
proof -
  from assms obtain r1 w1 events1 where
    y1: "await_commit rpc txHash (now rpc w) (wait_timeout options) (wait_interval options) w []
         = Some (r1, w1, events1)"
    by (auto simp: wait_unfold split: option.splits)
  show ?thesis
  proof (cases r1)
    case (Inl e1)
    with assms y1 have "e = e1" by (simp add: wait_unfold)
    moreover from y1 Inl obtain k evs where
      "commit_end rpc txHash (now rpc w) (wait_timeout options)
          ((commit_round rpc txHash (wait_interval options) ^^ k) w) (Inl e1) w1 evs"
      by (auto simp: await_commit_iff)
    ultimately show ?thesis
      by (auto simp: commit_end_def split: if_splits prod.splits sum.splits)
  next
    case (Inr result)
    obtain t w2 where tip: "get_tip_block_number rpc w1 = (t, w2)"
      by (cases "get_tip_block_number rpc w1")
    show ?thesis
    proof (cases t)
      case (Inl msg)
      with assms y1 Inr tip show ?thesis by (auto simp: wait_unfold)
    next
      case (Inr n)
      with assms y1 \<open>r1 = Inr result\<close> tip
      have "await_indexer rpc (now rpc w) (wait_timeout options) (wait_interval options)
          (Number n) w2 (events1 @ [LedgerTip n]) = Some (Inl e, w', events)"
        by (auto simp: wait_unfold split: option.splits sum.splits)
      then obtain m evs where
        "tip_end rpc (now rpc w) (wait_timeout options) (Number n)
          ((tip_round rpc (wait_interval options) ^^ m) w2) (Inl e) w' evs"
        by (auto simp: await_indexer_iff)
      then show ?thesis
        by (auto simp: tip_end_def split: if_splits prod.splits sum.splits)
    qed
  qed
qed

lemma commit_polls_member:
  assumes "commit_pending rpc txHash start timeout interval w k"
    and "e \<in> set (commit_polls rpc txHash interval w k)"
  shows "\<exists>t tx. e = CommitPoll t tx \<and> t - start \<le> timeout \<and> \<not> committed tx"
  using assms unfolding commit_pending_def commit_polls_def
  by (auto split: sum.splits)

lemma tip_polls_member:
  assumes "tip_pending rpc start timeout interval rpcTip w k"
    and "e \<in> set (tip_polls rpc interval w k)"
  shows "\<exists>t n. e = TipPoll t n \<and> t - start \<le> timeout \<and> \<not> js_ge (Number n) rpcTip"
  using assms unfolding tip_pending_def tip_polls_def
  by (auto split: sum.splits)

lemma commit_end_cases:
  assumes "commit_end rpc txHash start timeout w (Inr result) w' evs"
  shows "(\<exists>t. evs = [CommitTimeout t] \<and> timeout < t - start \<and> result = None) \<or>
         (\<exists>t tx. evs = [CommitPoll t (Some tx)] \<and> t - start \<le> timeout \<and>
                 committed (Some tx) \<and> result = Some (transaction tx))"
proof (cases "now rpc w - start \<le> timeout")
  case False
  with assms show ?thesis by (simp add: commit_end_def)
next
  case True
  obtain resp w1 where call: "get_transaction rpc txHash w = (resp, w1)"
    by (cases "get_transaction rpc txHash w")
  with True assms obtain tx where tx: "resp = Inr tx" "committed tx"
      "result = map_option transaction tx" "evs = [CommitPoll (now rpc w) tx]"
    by (cases resp) (simp_all add: commit_end_def)
  from tx(2) obtain t where "tx = Some t" by (cases tx) (simp_all add: committed_def)
  with tx True show ?thesis by simp
qed

lemma tip_end_cases:
  assumes "tip_end rpc start timeout rpcTip w (Inr u) w' evs"
  shows "(\<exists>t. evs = [TipTimeout t] \<and> timeout < t - start) \<or>
         (\<exists>t n. evs = [TipPoll t n] \<and> t - start \<le> timeout \<and> js_ge (Number n) rpcTip)"
proof (cases "now rpc w - start \<le> timeout")
  case False
  with assms show ?thesis by (simp add: tip_end_def)
next
  case True
  obtain resp w1 where call: "get_tip rpc w = (resp, w1)"
    by (cases "get_tip rpc w")
  with True assms show ?thesis
    by (cases resp) (simp_all add: tip_end_def)
qed

lemma wait_events:
  assumes run: "waitForTransactionCommitted rpc txHash options w = Some (Inr result, w', events)"
  shows "\<exists>cs c tip ts t.
           events = cs @ [c] @ [LedgerTip tip] @ ts @ [t] \<and>
           (\<forall>e \<in> set cs. \<exists>time tx. e = CommitPoll time tx \<and>
                time - now rpc w \<le> wait_timeout options \<and> \<not> committed tx) \<and>
           ((\<exists>time. c = CommitTimeout time \<and> wait_timeout options < time - now rpc w \<and>
                result = None) \<or>
            (\<exists>time tx. c = CommitPoll time (Some tx) \<and>
                time - now rpc w \<le> wait_timeout options \<and>
                committed (Some tx) \<and> result = Some (transaction tx))) \<and>
           (\<forall>e \<in> set ts. \<exists>time n. e = TipPoll time n \<and>
                time - now rpc w \<le> wait_timeout options \<and>
                \<not> js_ge (Number n) (Number tip)) \<and>
           ((\<exists>time. t = TipTimeout time \<and> wait_timeout options < time - now rpc w) \<or>
            (\<exists>time n. t = TipPoll time n \<and> time - now rpc w \<le> wait_timeout options \<and>
                js_ge (Number n) (Number tip)))"
proof -
  from run obtain k m w1 tip w2 ev1 ev2 where
    c: "commit_pending rpc txHash (now rpc w) (wait_timeout options) (wait_interval options) w k"
    and ce: "commit_end rpc txHash (now rpc w) (wait_timeout options)
          ((commit_round rpc txHash (wait_interval options) ^^ k) w) (Inr result) w1 ev1"
    and t: "tip_pending rpc (now rpc w) (wait_timeout options) (wait_interval options)
          (Number tip) w2 m"
    and te: "tip_end rpc (now rpc w) (wait_timeout options) (Number tip)
          ((tip_round rpc (wait_interval options) ^^ m) w2) (Inr ()) w' ev2"
    and ev: "events = commit_polls rpc txHash (wait_interval options) w k @ ev1 @ [LedgerTip tip] @
                 tip_polls rpc (wait_interval options) w2 m @ ev2"
    unfolding wait_success_iff by blast
  from commit_end_cases [OF ce] obtain c' where c': "ev1 = [c']"
    "(\<exists>time. c' = CommitTimeout time \<and> wait_timeout options < time - now rpc w \<and>
                result = None) \<or>
     (\<exists>time tx. c' = CommitPoll time (Some tx) \<and>
                time - now rpc w \<le> wait_timeout options \<and>
                committed (Some tx) \<and> result = Some (transaction tx))"
    by auto
  from tip_end_cases [OF te] obtain t' where t': "ev2 = [t']"
    "(\<exists>time. t' = TipTimeout time \<and> wait_timeout options < time - now rpc w) \<or>
     (\<exists>time n. t' = TipPoll time n \<and> time - now rpc w \<le> wait_timeout options \<and>
                js_ge (Number n) (Number tip))"
    by auto
  have "\<forall>e \<in> set (commit_polls rpc txHash (wait_interval options) w k).
          \<exists>time tx. e = CommitPoll time tx \<and>
                time - now rpc w \<le> wait_timeout options \<and> \<not> committed tx"
    using commit_polls_member [OF c] by blast
  moreover have "\<forall>e \<in> set (tip_polls rpc (wait_interval options) w2 m).
          \<exists>time n. e = TipPoll time n \<and>
                time - now rpc w \<le> wait_timeout options \<and>
                \<not> js_ge (Number n) (Number tip)"
    using tip_polls_member [OF t] by blast
  ultimately show ?thesis using ev c' t' by blast
qed


lemma wait_commit_determined:
  assumes pend: "commit_pending rpc txHash (now rpc w) (wait_timeout options)
                   (wait_interval options) w k"
    and fin: "commit_end rpc txHash (now rpc w) (wait_timeout options)
                ((commit_round rpc txHash (wait_interval options) ^^ k) w) (Inr res) w1 evs"
    and run: "waitForTransactionCommitted rpc txHash options w = Some (Inr result, w', events)"
  shows "result = res"
  using await_commit_complete [OF pend fin, of "[]"] run
  by (auto simp: wait_unfold split: prod.splits sum.splits option.splits)

lemma wait_commit_timeout:
  assumes pend: "commit_pending rpc txHash (now rpc w) (wait_timeout options)
                   (wait_interval options) w k"
    and late: "wait_timeout options
                < now rpc ((commit_round rpc txHash (wait_interval options) ^^ k) w) - now rpc w"
    and run: "waitForTransactionCommitted rpc txHash options w = Some (Inr result, w', events)"
  shows "result = None"
proof -
  from late have "commit_end rpc txHash (now rpc w) (wait_timeout options)
      ((commit_round rpc txHash (wait_interval options) ^^ k) w) (Inr None)
      ((commit_round rpc txHash (wait_interval options) ^^ k) w)
      [CommitTimeout (now rpc ((commit_round rpc txHash (wait_interval options) ^^ k) w))]"
    by (simp add: commit_end_def)
  from wait_commit_determined [OF pend this run] show ?thesis .
qed

lemma wait_commit_found:
  assumes pend: "commit_pending rpc txHash (now rpc w) (wait_timeout options)
                   (wait_interval options) w k"
    and early: "now rpc ((commit_round rpc txHash (wait_interval options) ^^ k) w) - now rpc w
                 \<le> wait_timeout options"
    and poll: "fst (get_transaction rpc txHash
                 ((commit_round rpc txHash (wait_interval options) ^^ k) w)) = Inr tx"
    and tx: "committed tx"
    and run: "waitForTransactionCommitted rpc txHash options w = Some (Inr result, w', events)"
  shows "result = map_option transaction tx"
proof -
  let ?w = "(commit_round rpc txHash (wait_interval options) ^^ k) w"
  obtain resp w1 where call: "get_transaction rpc txHash ?w = (resp, w1)"
    by (cases "get_transaction rpc txHash ?w")
  with poll have "resp = Inr tx" by simp
  with call early tx have "commit_end rpc txHash (now rpc w) (wait_timeout options) ?w
      (Inr (map_option transaction tx)) w1 [CommitPoll (now rpc ?w) tx]"
    by (simp add: commit_end_def)
  from wait_commit_determined [OF pend this run] show ?thesis .
qed

lemma binary_digits_bound: "binary_digits n \<le> k \<longleftrightarrow> n < 2 ^ k"
proof (induction n arbitrary: k rule: binary_digits.induct)
  case (1 n)
  show ?case
  proof (cases "n = 0")
    case True
    then show ?thesis by (subst binary_digits.simps) simp
  next
    case False
    show ?thesis
    proof (cases k)
      case 0
      with False show ?thesis by (subst binary_digits.simps) simp
    next
      case (Suc j)
      from "1" [OF False, of j] False Suc show ?thesis
        by (subst binary_digits.simps) auto
    qed
  qed
qed

lemma Number_exact:
  assumes "n < 2 ^ 53"
  shows "Number n = Finite n"
proof -
  from assms have "binary_digits n \<le> 53" by (simp only: binary_digits_bound)
  then have "binary_digits n - 53 = 0" by simp
  moreover have "(2::nat) ^ 53 < 2 ^ 1024" by simp
  with assms have "n < 2 ^ 1024" by (rule less_trans)
  ultimately show ?thesis by (simp add: Number_def)
qed

lemma js_ge_exact:
  "n < 2 ^ 53 \<Longrightarrow> tip < 2 ^ 53 \<Longrightarrow> js_ge (Number n) (Number tip) \<longleftrightarrow> tip \<le> n"
  by (simp add: Number_exact)

lemma binary_digits_eq:
  assumes "2 ^ k \<le> n" "n < 2 ^ Suc k"
  shows "binary_digits n = Suc k"
proof -
  from assms(2) have "binary_digits n \<le> Suc k" by (simp only: binary_digits_bound)
  moreover from assms(1) have "\<not> binary_digits n \<le> k" by (simp only: binary_digits_bound)
  ultimately show ?thesis by simp
qed

lemma Number_2_53_plus_1: "Number 9007199254740993 = Finite 9007199254740992"
proof -
  have "binary_digits 9007199254740993 = Suc 53" by (rule binary_digits_eq) simp_all
  then show ?thesis by (simp add: Number_def Let_def)
qed


lemma Number_99: "Number 99 = Finite 99"
  by (rule Number_exact) simp

lemma Number_2_53: "Number 9007199254740992 = Finite 9007199254740992"
proof -
  have "binary_digits 9007199254740992 = Suc 53" by (rule binary_digits_eq) simp_all
  then show ?thesis by (simp add: Number_def Let_def)
qed

section \<open>The trace of calls\<close>






lemma fetch_calls_requests:
  "complete_run client key completed cursor pages new \<Longrightarrow>
   Sent req \<in> set (fetch_calls key new) \<Longrightarrow> search_key req = key"
proof (induction new arbitrary: cursor pages)
  case Nil
  then show ?case by simp
next
  case (Cons x new)
  from Cons.prems(1) show ?case
  proof (cases rule: complete_run_cases)
    case (more res)
    from more(5) have ne: "new \<noteq> []" by (rule complete_run_nonempty)
    with Cons.prems(2) more(1) have
      "req = \<lparr>search_key = key, after_cursor = cursor\<rparr> \<or> Sent req \<in> set (fetch_calls key new)"
      by simp
    with Cons.IH [OF more(5)] show ?thesis by auto
  qed (use Cons.prems(2) in auto)
qed


section \<open>Properties of the cell collector\<close>

text \<open>
  C1 (tightness of native collection).  When \<open>collectCkbLiveCells\<close> succeeds, the
  cumulative capacity of the returned cells is at least \<open>minimalCapacity\<close>, and
  the returned sequence without its last cell has cumulative capacity below
  \<open>minimalCapacity\<close>, unless the sequence has exactly one cell.  (An empty result
  has no last cell to remove.)
\<close>

theorem collectCkbLiveCells_tightness:
  assumes "collectCkbLiveCells provider address minimalCapacity = Some (Inr cs, log, calls)"
  shows "minimalCapacity \<le> capacity_sum cs \<and>
         (\<forall>pre c. cs = pre @ [c] \<and> length cs \<noteq> 1 \<longrightarrow> capacity_sum pre < minimalCapacity)"
proof -
  from collectCkbLiveCells_success [OF assms] obtain k where
    k: "k \<le> length (ckb_live_cells (delivered log))"
      "cs = take k (ckb_live_cells (delivered log))"
      "minimalCapacity \<le> capacity_sum (take k (ckb_live_cells (delivered log)))"
      "\<forall>j. 0 < j \<and> j < k \<longrightarrow>
         capacity_sum (take j (ckb_live_cells (delivered log))) < minimalCapacity"
      "ckb_live_cells (delivered log) \<noteq> [] \<longrightarrow> 0 < k"
    by blast
  from collected_prefix(1) [OF k(1) k(4) [unfolded capacity_sum_def] k(5)
      k(3) [unfolded capacity_sum_def]] k(2,3)
  show ?thesis by (simp add: capacity_sum_def)
qed

theorem collectCkbLiveCells_tightness_witness:
  "map_option fst (collectCkbLiveCells
     (example_provider [[example_cell ''A'' 100 None [], example_cell ''B'' 50 None []],
                        [example_cell ''C'' 200 None []]]) ''0xa1'' 120)
   = Some (Inr [example_cell ''A'' 100 None [], example_cell ''B'' 50 None []])
   \<and> 120 \<le> capacity_sum [example_cell ''A'' 100 None [], example_cell ''B'' 50 None []]
   \<and> capacity_sum [example_cell ''A'' 100 None []] < 120"
proof -
  have run: "map_option fst (collectCkbLiveCells
     (example_provider [[example_cell ''A'' 100 None [], example_cell ''B'' 50 None []],
                        [example_cell ''C'' 200 None []]]) ''0xa1'' 120)
   = Some (Inr [example_cell ''A'' 100 None [], example_cell ''B'' 50 None []])"
    by code_simp
  then obtain log calls where "collectCkbLiveCells
     (example_provider [[example_cell ''A'' 100 None [], example_cell ''B'' 50 None []],
                        [example_cell ''C'' 200 None []]]) ''0xa1'' 120
   = Some (Inr [example_cell ''A'' 100 None [], example_cell ''B'' 50 None []], log, calls)"
    by auto
  from collectCkbLiveCells_tightness [OF this] run show ?thesis by simp
qed




text \<open>
  C4 (filter of native collection).  Every request of \<open>collectCkbLiveCells\<close>,
  the one sent after the last delivered page included, carries the search key that
  matches the owner's lock script and restricts the payload length to the range from
  \<open>0x0\<close> to \<open>0x1\<close>, and no returned cell bears a type script.
\<close>

theorem collectCkbLiveCells_native_only:
  assumes "collectCkbLiveCells provider address minimalCapacity = Some (r, log, calls)"
  shows "(\<forall>x \<in> set log. search_key (fst x) =
            \<lparr>key_script = parseToScript provider address, key_script_type = Lock,
             key_filter = \<lparr>filter_script = None,
                           output_data_len_range = Some (''0x0'', ''0x1'')\<rparr>\<rparr>)
         \<and> (\<forall>cs. r = Inr cs \<longrightarrow> (\<forall>cell \<in> set cs. cell_type (output_cell cell) = None))
         \<and> (\<forall>req. Sent req \<in> set calls \<longrightarrow> search_key req =
            \<lparr>key_script = parseToScript provider address, key_script_type = Lock,
             key_filter = \<lparr>filter_script = None,
                           output_data_len_range = Some (''0x0'', ''0x1'')\<rparr>\<rparr>)"
proof (intro conjI allI impI)
  from assms have run: "complete_run (get_cells provider)
      (ckb_search_key (parseToScript provider address)) (ckb_completed minimalCapacity) None [] log"
    and tr: "calls = fetch_calls (ckb_search_key (parseToScript provider address)) log"
    by (simp_all add: collectCkbLiveCells_iff)
  {
    fix req assume "Sent req \<in> set calls"
    with tr fetch_calls_requests [OF run, of req]
    show "search_key req =
            \<lparr>key_script = parseToScript provider address, key_script_type = Lock,
             key_filter = \<lparr>filter_script = None,
                           output_data_len_range = Some (''0x0'', ''0x1'')\<rparr>\<rparr>"
      by (simp add: ckb_search_key_def)
  }
  from complete_run_search_key [OF run]
  show "\<forall>x \<in> set log. search_key (fst x) =
            \<lparr>key_script = parseToScript provider address, key_script_type = Lock,
             key_filter = \<lparr>filter_script = None,
                           output_data_len_range = Some (''0x0'', ''0x1'')\<rparr>\<rparr>"
    by (simp add: ckb_search_key_def)
next
  fix cs assume "r = Inr cs"
  with assms have "collectCkbLiveCells provider address minimalCapacity = Some (Inr cs, log, calls)"
    by simp
  from collectCkbLiveCells_success [OF this] obtain k where
    "cs = take k (ckb_live_cells (delivered log))" by blast
  then have "set cs \<subseteq> set (ckb_live_cells (delivered log))"
    by (simp add: set_take_subset)
  then show "\<forall>cell \<in> set cs. cell_type (output_cell cell) = None"
    by (auto simp: ckb_live_cells_def)
qed

theorem collectCkbLiveCells_native_only_witness:
  "map_option fst (collectCkbLiveCells
     (example_provider [[example_cell ''A'' 100 None [],
                         example_cell ''U'' 70 (Some example_udt) [1, 2]],
                        [example_cell ''C'' 200 None []]]) ''0xa1'' 150)
   = Some (Inr [example_cell ''A'' 100 None [], example_cell ''C'' 200 None []])
   \<and> cell_type (output_cell (example_cell ''A'' 100 None [])) = None
   \<and> cell_type (output_cell (example_cell ''C'' 200 None [])) = None"
proof -
  have run: "map_option fst (collectCkbLiveCells
     (example_provider [[example_cell ''A'' 100 None [],
                         example_cell ''U'' 70 (Some example_udt) [1, 2]],
                        [example_cell ''C'' 200 None []]]) ''0xa1'' 150)
   = Some (Inr [example_cell ''A'' 100 None [], example_cell ''C'' 200 None []])"
    by code_simp
  then obtain log calls where "collectCkbLiveCells
     (example_provider [[example_cell ''A'' 100 None [],
                         example_cell ''U'' 70 (Some example_udt) [1, 2]],
                        [example_cell ''C'' 200 None []]]) ''0xa1'' 150
   = Some (Inr [example_cell ''A'' 100 None [], example_cell ''C'' 200 None []], log, calls)"
    by auto
  from collectCkbLiveCells_native_only [OF this] run show ?thesis by simp
qed

text \<open>
  C7 (accumulator invariant and order).  Every accumulator that \<open>scan\<close> produces in
  either collect operation, and the seed it starts from, has as its amount the sum of
  the contributions of its cells (capacity for native cells, decoded token amount for
  token cells), and its cells are a prefix of the cells that reach \<open>scan\<close>, which
  are the cells of the pages in the order the source emitted them (for native
  collection, those without a type script).  The values of \<open>cells$\<close> are among these
  accumulators, and the cells returned by a successful collection are such a prefix
  for the pages of its log.
\<close>

theorem accumulator_invariant_and_order:
  "(\<forall>acc \<in> set (ckb_scan pages).
      amount acc = capacity_sum (cells acc) \<and> prefix (cells acc) (ckb_live_cells pages))
   \<and> (\<forall>acc \<in> set (udt_scan pages).
      amount acc = udt_sum (cells acc) \<and> prefix (cells acc) (concat (map objects pages)))
   \<and> set (ckb_cells T pages) \<subseteq> set (ckb_scan pages)
   \<and> set (udt_cells T pages) \<subseteq> set (udt_scan pages)
   \<and> subseq (ckb_live_cells pages) (concat (map objects pages))
   \<and> amount empty_accumulator = capacity_sum (cells empty_accumulator)
   \<and> amount empty_accumulator = udt_sum (cells empty_accumulator)
   \<and> (collectCkbLiveCells provider address T = Some (Inr cs, log, calls) \<longrightarrow>
        prefix cs (ckb_live_cells (delivered log)))
   \<and> (collectUdtCells provider address udt T = Some (Inr cs', log', calls') \<longrightarrow>
        prefix cs' (concat (map objects (delivered log'))))"
proof (intro conjI ballI impI)
  fix acc assume "acc \<in> set (ckb_scan pages)"
  from ckb_scan_invariant [OF this]
  show "amount acc = capacity_sum (cells acc)" "prefix (cells acc) (ckb_live_cells pages)"
    by simp_all
next
  fix acc assume "acc \<in> set (udt_scan pages)"
  from udt_scan_invariant [OF this]
  show "amount acc = udt_sum (cells acc)" "prefix (cells acc) (concat (map objects pages))"
    by simp_all
next
  show "set (ckb_cells T pages) \<subseteq> set (ckb_scan pages)"
    unfolding ckb_cells_def by (rule set_takeWhile_inclusive)
  show "set (udt_cells T pages) \<subseteq> set (udt_scan pages)"
    unfolding udt_cells_def by (rule set_takeWhile_inclusive)
  show "subseq (ckb_live_cells pages) (concat (map objects pages))"
    unfolding ckb_live_cells_def by (rule subseq_filter_left)
  show "amount empty_accumulator = capacity_sum (cells empty_accumulator)"
    by (simp add: empty_accumulator_def capacity_sum_def)
  show "amount empty_accumulator = udt_sum (cells empty_accumulator)"
    by (simp add: empty_accumulator_def udt_sum_def)
next
  assume "collectCkbLiveCells provider address T = Some (Inr cs, log, calls)"
  from collectCkbLiveCells_success [OF this] obtain k where
    "cs = take k (ckb_live_cells (delivered log))" by blast
  then show "prefix cs (ckb_live_cells (delivered log))" by (simp add: take_is_prefix)
next
  assume "collectUdtCells provider address udt T = Some (Inr cs', log', calls')"
  from collectUdtCells_success [OF this] obtain k where
    "cs' = take k (concat (map objects (delivered log')))" by blast
  then show "prefix cs' (concat (map objects (delivered log')))" by (simp add: take_is_prefix)
qed

theorem accumulator_invariant_and_order_witness:
  "ckb_scan [\<lparr>objects = [example_cell ''A'' 100 None [], example_cell ''B'' 50 None []], last_cursor = ''c''\<rparr>]
   = [\<lparr>cells = [example_cell ''A'' 100 None []], amount = 100\<rparr>,
      \<lparr>cells = [example_cell ''A'' 100 None [], example_cell ''B'' 50 None []], amount = 150\<rparr>]
   \<and> 150 = capacity_sum [example_cell ''A'' 100 None [], example_cell ''B'' 50 None []]
   \<and> prefix [example_cell ''A'' 100 None [], example_cell ''B'' 50 None []]
        (ckb_live_cells [\<lparr>objects = [example_cell ''A'' 100 None [], example_cell ''B'' 50 None []], last_cursor = ''c''\<rparr>])"
proof -
  have scan: "ckb_scan [\<lparr>objects = [example_cell ''A'' 100 None [], example_cell ''B'' 50 None []], last_cursor = ''c''\<rparr>]
   = [\<lparr>cells = [example_cell ''A'' 100 None []], amount = 100\<rparr>,
      \<lparr>cells = [example_cell ''A'' 100 None [], example_cell ''B'' 50 None []], amount = 150\<rparr>]"
    by code_simp
  then have "\<lparr>cells = [example_cell ''A'' 100 None [], example_cell ''B'' 50 None []], amount = 150\<rparr>
      \<in> set (ckb_scan [\<lparr>objects = [example_cell ''A'' 100 None [], example_cell ''B'' 50 None []], last_cursor = ''c''\<rparr>])"
    by simp
  with accumulator_invariant_and_order
    [where pages = "[\<lparr>objects = [example_cell ''A'' 100 None [], example_cell ''B'' 50 None []], last_cursor = ''c''\<rparr>]"] scan
  show ?thesis by fastforce
qed

section \<open>Exhaustion and full scans\<close>

text \<open>
  C3 (insufficiency only after exhaustion).  \<open>collectCkbLiveCells\<close> raises
  \<open>NoEnoughCkbError\<close>, and \<open>collectUdtCells\<close> raises \<open>NoEnoughUdtError\<close>,
  exactly when paging has exhausted the source (the log is the full scan up to the
  empty page) and the total contribution of all matching cells of all pages is below
  the requested amount; the error carries the lock script used, the requested amount,
  and that total as \<open>actual\<close>.
\<close>

theorem insufficient_exactly_on_exhaustion:
  "(collectCkbLiveCells provider address T = Some (Inl (NoEnoughCkbError info), log, calls) \<longleftrightarrow>
      exhausts (get_cells provider) (ckb_search_key (parseToScript provider address)) log \<and>
      capacity_sum (ckb_live_cells (delivered log)) < T \<and>
      info = \<lparr>err_lock = parseToScript provider address, expected = T,
              actual = capacity_sum (ckb_live_cells (delivered log))\<rparr> \<and>
      calls = fetch_calls (ckb_search_key (parseToScript provider address)) log)
   \<and> (collectUdtCells provider address udt T
         = Some (Inl (NoEnoughUdtError info'), log', calls') \<longleftrightarrow>
      exhausts (get_cells provider) (udt_search_key (parseToScript provider address) udt) log' \<and>
      udt_sum (concat (map objects (delivered log'))) < T \<and>
      info' = \<lparr>err_lock = parseToScript provider address, expected = T,
               actual = udt_sum (concat (map objects (delivered log')))\<rparr> \<and>
      calls' = fetch_calls (udt_search_key (parseToScript provider address) udt) log')"
  using collectCkbLiveCells_insufficient_iff [of provider address T info log calls]
    collectUdtCells_insufficient_iff [of provider address udt T info' log' calls']
  by (rule conjI)

theorem insufficient_exactly_on_exhaustion_witness:
  "(case collectCkbLiveCells
      (example_provider [[example_cell ''A'' 100 None [], example_cell ''B'' 50 None []],
                        [example_cell ''C'' 200 None []]]) ''0xa1'' 351 of
      None \<Rightarrow> False
    | Some (r, log, calls) \<Rightarrow>
        r = Inl (NoEnoughCkbError
              \<lparr>err_lock = example_script ''0xa1'', expected = 351, actual = 350\<rparr>) \<and>
        capacity_sum (ckb_live_cells (delivered log)) = 350 \<and>
        exhausts (serve_pages [[example_cell ''A'' 100 None [], example_cell ''B'' 50 None []],
                        [example_cell ''C'' 200 None []]])
          (ckb_search_key (example_script ''0xa1'')) log)"
proof -
  have "map_option fst (collectCkbLiveCells
      (example_provider [[example_cell ''A'' 100 None [], example_cell ''B'' 50 None []],
                        [example_cell ''C'' 200 None []]]) ''0xa1'' 351)
    = Some (Inl (NoEnoughCkbError
              \<lparr>err_lock = example_script ''0xa1'', expected = 351, actual = 350\<rparr>))"
    by code_simp
  then obtain log calls where run: "collectCkbLiveCells
      (example_provider [[example_cell ''A'' 100 None [], example_cell ''B'' 50 None []],
                        [example_cell ''C'' 200 None []]]) ''0xa1'' 351
    = Some (Inl (NoEnoughCkbError
              \<lparr>err_lock = example_script ''0xa1'', expected = 351, actual = 350\<rparr>), log, calls)"
    by auto
  from insufficient_exactly_on_exhaustion [THEN conjunct1, THEN iffD1, OF run] run
  show ?thesis by (simp add: example_provider_def)
qed

text \<open>
  C6 (balances are full scans).  \<open>getCkbLiveCellsBalance\<close> and \<open>getUdtBalance\<close>
  return a value exactly when paging exhausts the source, and the value is then the sum
  of the contributions of every matching cell of every page; when they fail, the
  failure is the transport failure of a request, never an insufficiency error.
\<close>

theorem balance_is_full_scan:
  "(getCkbLiveCellsBalance provider address = Some (Inr v, log, calls) \<longleftrightarrow>
      exhausts (get_cells provider) (ckb_search_key (parseToScript provider address)) log \<and>
      v = capacity_sum (ckb_live_cells (delivered log)) \<and>
      calls = fetch_calls (ckb_search_key (parseToScript provider address)) log)
   \<and> (getCkbLiveCellsBalance provider address = Some (Inl e, log, calls) \<longrightarrow>
      (\<exists>msg. e = TransportError msg))
   \<and> (getUdtBalance provider address udt = Some (Inr v', log', calls') \<longleftrightarrow>
      exhausts (get_cells provider) (udt_search_key (parseToScript provider address) udt) log' \<and>
      v' = udt_sum (concat (map objects (delivered log'))) \<and>
      calls' = fetch_calls (udt_search_key (parseToScript provider address) udt) log')
   \<and> (getUdtBalance provider address udt = Some (Inl e', log', calls') \<longrightarrow>
      (\<exists>msg. e' = TransportError msg))"
  using getCkbLiveCellsBalance_full_scan [of provider address v log calls]
    getUdtBalance_full_scan [of provider address udt v' log' calls']
    balance_failure_is_transport(1) [of provider address e log calls]
    balance_failure_is_transport(2) [of provider address udt e' log' calls']
  by blast

theorem balance_is_full_scan_witness:
  "map_option fst (getCkbLiveCellsBalance
      (example_provider [[example_cell ''A'' 10 None [], example_cell ''B'' 20 None []],
                        [example_cell ''C'' 30 None []]]) ''0xa1'') = Some (Inr 60)
   \<and> capacity_sum (ckb_live_cells
        [\<lparr>objects = [example_cell ''A'' 10 None [], example_cell ''B'' 20 None []], last_cursor = ''c''\<rparr>,
         \<lparr>objects = [example_cell ''C'' 30 None []], last_cursor = ''cc''\<rparr>]) = 60"
proof -
  have run: "map_option fst (getCkbLiveCellsBalance
      (example_provider [[example_cell ''A'' 10 None [], example_cell ''B'' 20 None []],
                        [example_cell ''C'' 30 None []]]) ''0xa1'') = Some (Inr 60)"
    by code_simp
  then obtain log calls where "getCkbLiveCellsBalance
      (example_provider [[example_cell ''A'' 10 None [], example_cell ''B'' 20 None []],
                        [example_cell ''C'' 30 None []]]) ''0xa1'' = Some (Inr 60, log, calls)"
    by auto
  from balance_is_full_scan [THEN conjunct1, THEN iffD1, OF this]
  have "60 = capacity_sum (ckb_live_cells (delivered log))" by simp
  moreover have "capacity_sum (ckb_live_cells
        [\<lparr>objects = [example_cell ''A'' 10 None [], example_cell ''B'' 20 None []], last_cursor = ''c''\<rparr>,
         \<lparr>objects = [example_cell ''C'' 30 None []], last_cursor = ''cc''\<rparr>]) = 60"
    by code_simp
  ultimately show ?thesis using run by simp
qed

section \<open>The order of requests\<close>




section \<open>Token amounts\<close>

text \<open>
  C5 (token contribution).  In \<open>collectUdtCells\<close> and \<open>getUdtBalance\<close> a cell
  contributes the unsigned integer that the first 16 bytes of its payload encode in
  little-endian order (the bytes that \<open>slice(0, 34)\<close> keeps of the payload string),
  whatever its capacity.  The \<open>k\<close>-th accumulator of the token scan holds the first
  \<open>k\<close> cells and the sum of these values; a successful collection returns the
  shortest non-empty run of leading cells whose values reach the requested amount; an
  insufficiency error reports the sum of the values of all cells; the balance is that
  sum.  All sums are over unbounded naturals.  A payload that starts with the 16-byte
  little-endian encoding of a number below \<open>2^128\<close> contributes that number.
\<close>

theorem udt_contribution_little_endian:
  "udt_scan pages =
     map (\<lambda>k. \<lparr>cells = take k (concat (map objects pages)),
                amount = sum_list (map (\<lambda>cell. toBigUInt128LE (take 16 (output_data cell)))
                           (take k (concat (map objects pages))))\<rparr>)
       [1..<Suc (length (concat (map objects pages)))]
   \<and> (\<forall>acc \<in> set (udt_scan pages).
      amount acc =
        sum_list (map (\<lambda>cell. toBigUInt128LE (take 16 (output_data cell))) (cells acc)))
   \<and> (getUdtBalance provider address udt = Some (Inr v, log, calls) \<longrightarrow>
        v = sum_list (map (\<lambda>cell. toBigUInt128LE (take 16 (output_data cell)))
              (concat (map objects (delivered log)))))
   \<and> (collectUdtCells provider address udt T = Some (Inr cs, log', calls') \<longrightarrow>
        (\<exists>k \<le> length (concat (map objects (delivered log'))).
           cs = take k (concat (map objects (delivered log'))) \<and>
           T \<le> sum_list (map (\<lambda>cell. toBigUInt128LE (take 16 (output_data cell))) cs) \<and>
           (\<forall>j. 0 < j \<and> j < k \<longrightarrow>
              sum_list (map (\<lambda>cell. toBigUInt128LE (take 16 (output_data cell)))
                (take j (concat (map objects (delivered log'))))) < T) \<and>
           (concat (map objects (delivered log')) \<noteq> [] \<longrightarrow> 0 < k)))
   \<and> (collectUdtCells provider address udt T
         = Some (Inl (NoEnoughUdtError info), log'', calls'') \<longrightarrow>
        actual info = sum_list (map (\<lambda>cell. toBigUInt128LE (take 16 (output_data cell)))
              (concat (map objects (delivered log'')))) \<and>
        actual info < T)
   \<and> take 34 (hex_string (output_data cell)) = hex_string (take 16 (output_data cell))
   \<and> udt_amount (cell\<lparr>output_cell := out\<rparr>) = udt_amount cell
   \<and> (n < 2 ^ 128 \<longrightarrow>
        toBigUInt128LE (take 16 (le_bytes 16 n @ rest)) = n \<and>
        udt_amount (cell\<lparr>output_data := le_bytes 16 n @ rest\<rparr>) = n)"
proof (intro conjI ballI impI)
  show "udt_scan pages =
     map (\<lambda>k. \<lparr>cells = take k (concat (map objects pages)),
                amount = sum_list (map (\<lambda>cell. toBigUInt128LE (take 16 (output_data cell)))
                           (take k (concat (map objects pages))))\<rparr>)
       [1..<Suc (length (concat (map objects pages)))]"
    by (rule udt_scan_exact)
next
  fix acc assume "acc \<in> set (udt_scan pages)"
  from udt_scan_invariant [OF this]
  show "amount acc =
      sum_list (map (\<lambda>cell. toBigUInt128LE (take 16 (output_data cell))) (cells acc))"
    by (simp add: udt_sum_decoded)
next
  assume "getUdtBalance provider address udt = Some (Inr v, log, calls)"
  then show "v = sum_list (map (\<lambda>cell. toBigUInt128LE (take 16 (output_data cell)))
              (concat (map objects (delivered log))))"
    by (simp add: getUdtBalance_full_scan udt_sum_decoded)
next
  assume "collectUdtCells provider address udt T = Some (Inr cs, log', calls')"
  from collectUdtCells_success [OF this]
  show "\<exists>k \<le> length (concat (map objects (delivered log'))).
           cs = take k (concat (map objects (delivered log'))) \<and>
           T \<le> sum_list (map (\<lambda>cell. toBigUInt128LE (take 16 (output_data cell))) cs) \<and>
           (\<forall>j. 0 < j \<and> j < k \<longrightarrow>
              sum_list (map (\<lambda>cell. toBigUInt128LE (take 16 (output_data cell)))
                (take j (concat (map objects (delivered log'))))) < T) \<and>
           (concat (map objects (delivered log')) \<noteq> [] \<longrightarrow> 0 < k)"
    unfolding udt_sum_decoded by blast
next
  assume "collectUdtCells provider address udt T
         = Some (Inl (NoEnoughUdtError info), log'', calls'')"
  then have "udt_sum (concat (map objects (delivered log''))) < T"
    "info = \<lparr>err_lock = parseToScript provider address, expected = T,
             actual = udt_sum (concat (map objects (delivered log'')))\<rparr>"
    by (simp_all add: collectUdtCells_insufficient_iff)
  then show "actual info = sum_list (map (\<lambda>cell. toBigUInt128LE (take 16 (output_data cell)))
              (concat (map objects (delivered log''))))" "actual info < T"
    by (simp_all add: udt_sum_decoded)
next
  show "take 34 (hex_string (output_data cell)) = hex_string (take 16 (output_data cell))"
    by (rule slice_34_is_16_bytes)
  show "udt_amount (cell\<lparr>output_cell := out\<rparr>) = udt_amount cell"
    by (simp add: udt_amount_def)
next
  assume n: "n < 2 ^ 128"
  then show "toBigUInt128LE (take 16 (le_bytes 16 n @ rest)) = n"
    by (rule toBigUInt128LE_round_trip)
  then show "udt_amount (cell\<lparr>output_data := le_bytes 16 n @ rest\<rparr>) = n"
    by (simp add: udt_amount_def)
qed

theorem udt_contribution_little_endian_witness:
  "udt_scan [\<lparr>objects = [udt_cell ''X'' 100, udt_cell ''Y'' 50], last_cursor = ''c''\<rparr>]
     = [\<lparr>cells = [udt_cell ''X'' 100], amount = 100\<rparr>,
        \<lparr>cells = [udt_cell ''X'' 100, udt_cell ''Y'' 50], amount = 150\<rparr>]
   \<and> capacity (output_cell (udt_cell ''X'' 100)) = 142
   \<and> map_option fst (collectUdtCells
        (example_provider [[udt_cell ''X'' 100, udt_cell ''Y'' 50], [udt_cell ''Z'' 200]])
        ''0xa1'' example_udt 120)
      = Some (Inr [udt_cell ''X'' 100, udt_cell ''Y'' 50])
   \<and> sum_list (map (\<lambda>cell. toBigUInt128LE (take 16 (output_data cell)))
        [udt_cell ''X'' 100, udt_cell ''Y'' 50]) = 150
   \<and> udt_amount (udt_cell ''X'' 12345) = 12345
   \<and> toBigUInt128LE (take 16 (le_bytes 16 12345 @ [7, 7])) = 12345
   \<and> map_option fst (getUdtBalance
        (example_provider [[udt_cell ''X'' (2 ^ 128 - 1), udt_cell ''Y'' (2 ^ 128 - 1)]])
        ''0xa1'' example_udt)
      = Some (Inr (2 ^ 129 - 2))"
proof -
  have small: "(12345::nat) < 2 ^ 128" by simp
  from udt_contribution_little_endian [where n = 12345 and rest = "[]"
      and cell = "udt_cell ''X'' 12345", THEN conjunct2, THEN conjunct2, THEN conjunct2,
      THEN conjunct2, THEN conjunct2, THEN conjunct2, THEN conjunct2, rule_format, OF small]
  have one: "udt_amount (udt_cell ''X'' 12345) = 12345"
    by (simp add: udt_cell_def example_cell_def)
  from udt_contribution_little_endian [where n = 12345 and rest = "[7, 7]",
      THEN conjunct2, THEN conjunct2, THEN conjunct2,
      THEN conjunct2, THEN conjunct2, THEN conjunct2, THEN conjunct2, rule_format, OF small]
  have two: "toBigUInt128LE (take 16 (le_bytes 16 12345 @ [7, 7])) = 12345"
    by simp
  have decoded: "toBigUInt128LE (take 16 (output_data (udt_cell name n))) = n"
    if "n < 2 ^ 128" for name n
    using udt_amount_udt_cell [OF that, of name] by (simp add: udt_amount_def)
  have sum: "sum_list (map (\<lambda>cell. toBigUInt128LE (take 16 (output_data cell)))
        [udt_cell ''X'' 100, udt_cell ''Y'' 50]) = 150"
    by (simp add: decoded)
  from udt_contribution_little_endian
    [where pages = "[\<lparr>objects = [udt_cell ''X'' 100, udt_cell ''Y'' 50], last_cursor = ''c''\<rparr>]",
      THEN conjunct1]
  have scan: "udt_scan [\<lparr>objects = [udt_cell ''X'' 100, udt_cell ''Y'' 50], last_cursor = ''c''\<rparr>]
     = [\<lparr>cells = [udt_cell ''X'' 100], amount = 100\<rparr>,
        \<lparr>cells = [udt_cell ''X'' 100, udt_cell ''Y'' 50], amount = 150\<rparr>]"
    by (simp add: decoded upt_rec)
  have cap: "capacity (output_cell (udt_cell ''X'' 100)) = 142"
    by (simp add: udt_cell_def example_cell_def)
  have collect: "map_option fst (collectUdtCells
        (example_provider [[udt_cell ''X'' 100, udt_cell ''Y'' 50], [udt_cell ''Z'' 200]])
        ''0xa1'' example_udt 120)
      = Some (Inr [udt_cell ''X'' 100, udt_cell ''Y'' 50])"
    by (simp add: collectUdtCells_def example_provider_def expand_pages.simps serve_pages_def
      udt_completed_def udt_scan_def udt_step_def udt_cells_def udt_amount_udt_cell
      takeWhile_completed_def lastValueFrom_def empty_accumulator_def Let_def)
  have big: "udt_amount (udt_cell name 340282366920938463463374607431768211455)
      = 340282366920938463463374607431768211455" for name
    by (rule udt_amount_udt_cell) simp
  have balance: "map_option fst (getUdtBalance
        (example_provider [[udt_cell ''X'' (2 ^ 128 - 1), udt_cell ''Y'' (2 ^ 128 - 1)]])
        ''0xa1'' example_udt)
      = Some (Inr (2 ^ 129 - 2))"
    by (simp add: getUdtBalance_def example_provider_def expand_pages.simps serve_pages_def
        reduce_def big Let_def)
  from scan cap collect sum one two balance show ?thesis by blast
qed

section \<open>Properties of the transaction-wait poller\<close>

text \<open>
  C9 (polling for a committed transaction).  \<open>waitForTransactionCommitted\<close> runs two
  loops one after the other against one clock reading \<open>start\<close> taken at the
  beginning and never taken again: a round of either loop is entered exactly while
  \<open>now - start \<le> timeoutMs\<close>.

  It returns a result exactly in the following runs.  The first loop polls the ledger
  \<open>k\<close> times within the budget without finding the transaction committed, sleeping
  after each poll, and then either finds the budget spent, which gives the null
  result, or polls once more within the budget and finds the status
  \<open>committed\<close>, which gives the body of the transaction.  The ledger tip is read.
  The second loop polls the indexer \<open>m\<close> times within the budget finding its tip,
  as a double, below the ledger tip, and then either finds the budget spent or
  polls once more within the budget and finds the tip caught up; the result of the
  first loop is returned in both cases.

  Hence the events of such a run are commit polls within the budget that found
  nothing, the commit poll within the budget that found the transaction or the
  time-out of the first loop beyond the budget, the ledger tip, tip polls within the
  budget that were behind, and the tip poll within the budget that had caught up or
  the time-out of the second loop beyond the budget.  Whatever the first loop meets
  first decides the result: null if the budget is spent after \<open>k\<close> unsuccessful
  polls, the body if the next poll is within the budget and reports
  \<open>committed\<close>.

  Running out of time is never an error: the only failure is a rejected RPC call.
  If time does not run backwards and the poll interval is positive, the method
  returns.  Block numbers below \<open>2^53\<close> are compared exactly.
\<close>

theorem waitForTransactionCommitted_polling:
  "(waitForTransactionCommitted rpc txHash options w = Some (Inr result, w', events) \<longleftrightarrow>
      (\<exists>k m w1 tip w2 ev1 ev2.
        commit_pending rpc txHash (now rpc w) (wait_timeout options) (wait_interval options) w k \<and>
        commit_end rpc txHash (now rpc w) (wait_timeout options)
          ((commit_round rpc txHash (wait_interval options) ^^ k) w) (Inr result) w1 ev1 \<and>
        get_tip_block_number rpc w1 = (Inr tip, w2) \<and>
        tip_pending rpc (now rpc w) (wait_timeout options) (wait_interval options)
          (Number tip) w2 m \<and>
        tip_end rpc (now rpc w) (wait_timeout options) (Number tip)
          ((tip_round rpc (wait_interval options) ^^ m) w2) (Inr ()) w' ev2 \<and>
        events = commit_polls rpc txHash (wait_interval options) w k @ ev1 @ [LedgerTip tip] @
                 tip_polls rpc (wait_interval options) w2 m @ ev2))
   \<and> (waitForTransactionCommitted rpc txHash options w = Some (Inr result, w', events) \<longrightarrow>
        (\<exists>cs c tip ts t.
           events = cs @ [c] @ [LedgerTip tip] @ ts @ [t] \<and>
           (\<forall>e \<in> set cs. \<exists>time tx. e = CommitPoll time tx \<and>
                time - now rpc w \<le> wait_timeout options \<and> \<not> committed tx) \<and>
           ((\<exists>time. c = CommitTimeout time \<and> wait_timeout options < time - now rpc w \<and>
                result = None) \<or>
            (\<exists>time tx. c = CommitPoll time (Some tx) \<and>
                time - now rpc w \<le> wait_timeout options \<and>
                committed (Some tx) \<and> result = Some (transaction tx))) \<and>
           (\<forall>e \<in> set ts. \<exists>time n. e = TipPoll time n \<and>
                time - now rpc w \<le> wait_timeout options \<and>
                \<not> js_ge (Number n) (Number tip)) \<and>
           ((\<exists>time. t = TipTimeout time \<and> wait_timeout options < time - now rpc w) \<or>
            (\<exists>time n. t = TipPoll time n \<and> time - now rpc w \<le> wait_timeout options \<and>
                js_ge (Number n) (Number tip)))))
   \<and> (commit_pending rpc txHash (now rpc w) (wait_timeout options) (wait_interval options) w j \<and>
       waitForTransactionCommitted rpc txHash options w = Some (Inr result, w', events) \<longrightarrow>
        (wait_timeout options
           < now rpc ((commit_round rpc txHash (wait_interval options) ^^ j) w) - now rpc w
         \<longrightarrow> result = None) \<and>
        (\<forall>tx. now rpc ((commit_round rpc txHash (wait_interval options) ^^ j) w) - now rpc w
                \<le> wait_timeout options \<and>
              fst (get_transaction rpc txHash
                     ((commit_round rpc txHash (wait_interval options) ^^ j) w)) = Inr tx \<and>
              committed tx
              \<longrightarrow> result = map_option transaction tx))
   \<and> (waitForTransactionCommitted rpc txHash options w = Some (Inl e, w', events) \<longrightarrow>
        (\<exists>msg. e = TransportError msg))
   \<and> (clock_advances rpc \<and> 0 < wait_interval options \<longrightarrow>
        waitForTransactionCommitted rpc txHash options w \<noteq> None)
   \<and> (a < 2 ^ 53 \<and> b < 2 ^ 53 \<longrightarrow> js_ge (Number a) (Number b) = (b \<le> a))"
proof (intro conjI impI allI)
  show "waitForTransactionCommitted rpc txHash options w = Some (Inr result, w', events) \<longleftrightarrow>
      (\<exists>k m w1 tip w2 ev1 ev2.
        commit_pending rpc txHash (now rpc w) (wait_timeout options) (wait_interval options) w k \<and>
        commit_end rpc txHash (now rpc w) (wait_timeout options)
          ((commit_round rpc txHash (wait_interval options) ^^ k) w) (Inr result) w1 ev1 \<and>
        get_tip_block_number rpc w1 = (Inr tip, w2) \<and>
        tip_pending rpc (now rpc w) (wait_timeout options) (wait_interval options)
          (Number tip) w2 m \<and>
        tip_end rpc (now rpc w) (wait_timeout options) (Number tip)
          ((tip_round rpc (wait_interval options) ^^ m) w2) (Inr ()) w' ev2 \<and>
        events = commit_polls rpc txHash (wait_interval options) w k @ ev1 @ [LedgerTip tip] @
                 tip_polls rpc (wait_interval options) w2 m @ ev2)"
    by (rule wait_success_iff)
next
  assume "waitForTransactionCommitted rpc txHash options w = Some (Inr result, w', events)"
  from wait_events [OF this]
  show "\<exists>cs c tip ts t.
           events = cs @ [c] @ [LedgerTip tip] @ ts @ [t] \<and>
           (\<forall>e \<in> set cs. \<exists>time tx. e = CommitPoll time tx \<and>
                time - now rpc w \<le> wait_timeout options \<and> \<not> committed tx) \<and>
           ((\<exists>time. c = CommitTimeout time \<and> wait_timeout options < time - now rpc w \<and>
                result = None) \<or>
            (\<exists>time tx. c = CommitPoll time (Some tx) \<and>
                time - now rpc w \<le> wait_timeout options \<and>
                committed (Some tx) \<and> result = Some (transaction tx))) \<and>
           (\<forall>e \<in> set ts. \<exists>time n. e = TipPoll time n \<and>
                time - now rpc w \<le> wait_timeout options \<and>
                \<not> js_ge (Number n) (Number tip)) \<and>
           ((\<exists>time. t = TipTimeout time \<and> wait_timeout options < time - now rpc w) \<or>
            (\<exists>time n. t = TipPoll time n \<and> time - now rpc w \<le> wait_timeout options \<and>
                js_ge (Number n) (Number tip)))" .
next
  assume both: "commit_pending rpc txHash (now rpc w) (wait_timeout options)
         (wait_interval options) w j \<and>
       waitForTransactionCommitted rpc txHash options w = Some (Inr result, w', events)"
    and late: "wait_timeout options
           < now rpc ((commit_round rpc txHash (wait_interval options) ^^ j) w) - now rpc w"
  from both have pend: "commit_pending rpc txHash (now rpc w) (wait_timeout options)
         (wait_interval options) w j"
    and run: "waitForTransactionCommitted rpc txHash options w = Some (Inr result, w', events)"
    by simp_all
  from wait_commit_timeout [OF pend late run] show "result = None" .
next
  fix tx
  assume both: "commit_pending rpc txHash (now rpc w) (wait_timeout options)
         (wait_interval options) w j \<and>
       waitForTransactionCommitted rpc txHash options w = Some (Inr result, w', events)"
    and found: "now rpc ((commit_round rpc txHash (wait_interval options) ^^ j) w) - now rpc w
                \<le> wait_timeout options \<and>
              fst (get_transaction rpc txHash
                     ((commit_round rpc txHash (wait_interval options) ^^ j) w)) = Inr tx \<and>
              committed tx"
  from both have pend: "commit_pending rpc txHash (now rpc w) (wait_timeout options)
         (wait_interval options) w j"
    and run: "waitForTransactionCommitted rpc txHash options w = Some (Inr result, w', events)"
    by simp_all
  from found have early: "now rpc ((commit_round rpc txHash (wait_interval options) ^^ j) w)
         - now rpc w \<le> wait_timeout options"
    and poll: "fst (get_transaction rpc txHash
                     ((commit_round rpc txHash (wait_interval options) ^^ j) w)) = Inr tx"
    and tx: "committed tx"
    by simp_all
  from wait_commit_found [OF pend early poll tx run]
  show "result = map_option transaction tx" .
next
  assume "waitForTransactionCommitted rpc txHash options w = Some (Inl e, w', events)"
  then show "\<exists>msg. e = TransportError msg" by (rule wait_failure)
next
  assume "clock_advances rpc \<and> 0 < wait_interval options"
  then have "clock_advances rpc" and "0 < wait_interval options" by simp_all
  then show "waitForTransactionCommitted rpc txHash options w \<noteq> None"
    by (rule wait_returns)
next
  assume "a < 2 ^ 53 \<and> b < 2 ^ 53"
  then show "js_ge (Number a) (Number b) = (b \<le> a)" by (simp add: js_ge_exact)
qed

theorem waitForTransactionCommitted_polling_witness:
  "waitForTransactionCommitted (example_ledger 2000 3000 9007199254740993 9007199254740992)
      ''0xabc'' \<lparr>pollIntervalMs = Some 1000, timeoutMs = Some 10000\<rparr> 0
     = Some (Inr (Some ''body of 0xabc''), 3030,
         [CommitPoll 0 (Some \<lparr>transaction = ''body of 0xabc'',
                               tx_status = Some \<lparr>status = ''pending''\<rparr>\<rparr>),
          CommitPoll 1005 (Some \<lparr>transaction = ''body of 0xabc'',
                                  tx_status = Some \<lparr>status = ''pending''\<rparr>\<rparr>),
          CommitPoll 2010 (Some \<lparr>transaction = ''body of 0xabc'',
                                  tx_status = Some \<lparr>status = ''committed''\<rparr>\<rparr>),
          LedgerTip 9007199254740993, TipPoll 2020 99, TipPoll 3025 9007199254740992])
   \<and> commit_pending (example_ledger 2000 3000 9007199254740993 9007199254740992)
        ''0xabc'' 0 10000 1000 0 2
   \<and> js_ge (Number 9007199254740992) (Number 9007199254740993)
   \<and> waitForTransactionCommitted (example_ledger 50000 0 100 100)
        ''0xabc'' \<lparr>pollIntervalMs = Some 1000, timeoutMs = Some 2000\<rparr> 0
     = Some (Inr None, 2015,
         [CommitPoll 0 (Some \<lparr>transaction = ''body of 0xabc'',
                               tx_status = Some \<lparr>status = ''pending''\<rparr>\<rparr>),
          CommitPoll 1005 (Some \<lparr>transaction = ''body of 0xabc'',
                                  tx_status = Some \<lparr>status = ''pending''\<rparr>\<rparr>),
          CommitTimeout 2010, LedgerTip 100, TipTimeout 2015])
   \<and> waitForTransactionCommitted
        ((example_ledger 0 0 100 100)\<lparr>get_tip_block_number := (\<lambda>w. (Inl ''down'', w + 5))\<rparr>)
        ''0xabc'' \<lparr>pollIntervalMs = None, timeoutMs = None\<rparr> 0
     = Some (Inl (TransportError ''down''), 10,
         [CommitPoll 0 (Some \<lparr>transaction = ''body of 0xabc'',
                               tx_status = Some \<lparr>status = ''committed''\<rparr>\<rparr>)])
   \<and> clock_advances (example_ledger 50000 0 100 100)
   \<and> wait_interval \<lparr>pollIntervalMs = None, timeoutMs = None\<rparr> = 1000
   \<and> wait_timeout \<lparr>pollIntervalMs = None, timeoutMs = None\<rparr> = 120000
   \<and> waitForTransactionCommitted (example_ledger 50000 0 100 100)
        ''0xabc'' \<lparr>pollIntervalMs = None, timeoutMs = None\<rparr> 0 \<noteq> None
   \<and> js_ge (Number 100) (Number 99) \<and> \<not> js_ge (Number 99) (Number 100)"
proof -
  have run1: "waitForTransactionCommitted
      (example_ledger 2000 3000 9007199254740993 9007199254740992)
      ''0xabc'' \<lparr>pollIntervalMs = Some 1000, timeoutMs = Some 10000\<rparr> 0
     = Some (Inr (Some ''body of 0xabc''), 3030,
         [CommitPoll 0 (Some \<lparr>transaction = ''body of 0xabc'',
                               tx_status = Some \<lparr>status = ''pending''\<rparr>\<rparr>),
          CommitPoll 1005 (Some \<lparr>transaction = ''body of 0xabc'',
                                  tx_status = Some \<lparr>status = ''pending''\<rparr>\<rparr>),
          CommitPoll 2010 (Some \<lparr>transaction = ''body of 0xabc'',
                                  tx_status = Some \<lparr>status = ''committed''\<rparr>\<rparr>),
          LedgerTip 9007199254740993, TipPoll 2020 99, TipPoll 3025 9007199254740992])"
    by (simp add: waitForTransactionCommitted_def await_commit.simps await_indexer.simps
          example_ledger_def wait_interval_def wait_timeout_def committed_def
          Number_99 Number_2_53 Number_2_53_plus_1)
  have pend: "commit_pending (example_ledger 2000 3000 9007199254740993 9007199254740992)
        ''0xabc'' 0 10000 1000 0 2"
    by (simp add: numeral_2_eq_2 commit_pending_Suc commit_pending_0 commit_round_def
          example_ledger_def committed_def)
  have round: "js_ge (Number 9007199254740992) (Number 9007199254740993)"
    by (simp add: Number_2_53 Number_2_53_plus_1)
  have run2: "waitForTransactionCommitted (example_ledger 50000 0 100 100)
        ''0xabc'' \<lparr>pollIntervalMs = Some 1000, timeoutMs = Some 2000\<rparr> 0
     = Some (Inr None, 2015,
         [CommitPoll 0 (Some \<lparr>transaction = ''body of 0xabc'',
                               tx_status = Some \<lparr>status = ''pending''\<rparr>\<rparr>),
          CommitPoll 1005 (Some \<lparr>transaction = ''body of 0xabc'',
                                  tx_status = Some \<lparr>status = ''pending''\<rparr>\<rparr>),
          CommitTimeout 2010, LedgerTip 100, TipTimeout 2015])"
    by (simp add: waitForTransactionCommitted_def await_commit.simps await_indexer.simps
          example_ledger_def wait_interval_def wait_timeout_def committed_def Number_exact)
  have run3: "waitForTransactionCommitted
        ((example_ledger 0 0 100 100)\<lparr>get_tip_block_number := (\<lambda>w. (Inl ''down'', w + 5))\<rparr>)
        ''0xabc'' \<lparr>pollIntervalMs = None, timeoutMs = None\<rparr> 0
     = Some (Inl (TransportError ''down''), 10,
         [CommitPoll 0 (Some \<lparr>transaction = ''body of 0xabc'',
                               tx_status = Some \<lparr>status = ''committed''\<rparr>\<rparr>)])"
    by (simp add: waitForTransactionCommitted_def await_commit.simps
          example_ledger_def wait_interval_def wait_timeout_def committed_def)
  have clock: "clock_advances (example_ledger 50000 0 100 100)"
    by (simp add: clock_advances_def example_ledger_def)
  have defaults: "wait_interval \<lparr>pollIntervalMs = None, timeoutMs = None\<rparr> = 1000"
    "wait_timeout \<lparr>pollIntervalMs = None, timeoutMs = None\<rparr> = 120000"
    by (simp_all add: wait_interval_def wait_timeout_def)
  have "waitForTransactionCommitted (example_ledger 50000 0 100 100)
        ''0xabc'' \<lparr>pollIntervalMs = None, timeoutMs = None\<rparr> 0 \<noteq> None"
    using waitForTransactionCommitted_polling
      [where rpc = "example_ledger 50000 0 100 100" and txHash = "''0xabc''"
         and options = "\<lparr>pollIntervalMs = None, timeoutMs = None\<rparr>" and w = 0]
      clock defaults
    by simp
  moreover have "js_ge (Number 100) (Number 99)" "\<not> js_ge (Number 99) (Number 100)"
    using waitForTransactionCommitted_polling [where a = 100 and b = 99,
        THEN conjunct2, THEN conjunct2, THEN conjunct2, THEN conjunct2, THEN conjunct2]
      waitForTransactionCommitted_polling [where a = 99 and b = 100,
        THEN conjunct2, THEN conjunct2, THEN conjunct2, THEN conjunct2, THEN conjunct2]
    by simp_all
  ultimately show ?thesis using run1 pend round run2 run3 clock defaults
    by (intro conjI) assumption+
qed

section \<open>Properties of AcpTransferSudtBuilder\<close>

text \<open>
  C10. \<open>AcpTransferSudtBuilder.build\<close> throws \<open>RecipientSameWithSenderError\<close> carrying
  the sender address, without running the inner builder, whenever some recipient's
  address equals the sender's; it hands over to the inner builder, whose outcome it
  returns unchanged, exactly when no recipient equals the sender.
\<close>

theorem acp_build_recipient_same_with_sender:
  "((\<exists>r \<in> set (recipients options). recipient r = sender) \<longrightarrow>
      acp_build builder options sender w = (Inl (RecipientSameWithSenderError sender), w))
   \<and> (\<not> (\<exists>r \<in> set (recipients options). recipient r = sender) \<longrightarrow>
      acp_build builder options sender w = builder options sender w)"
  by (auto simp: acp_build_def find_None_iff find_Some_iff split: option.splits)

theorem acp_build_recipient_same_with_sender_witness:
  "acp_build (\<lambda>opts s w. (Inr (length (recipients opts)), Suc w))
     \<lparr>recipients = [\<lparr>recipient = ''ckt1alice'', sudt = \<lparr>code_hash = ''0xc5'', hash_type = ''type'', args = ''0x01''\<rparr>,
                      recipient_amount = 5, policy = findAcp\<rparr>,
                    \<lparr>recipient = ''ckt1bob'', sudt = \<lparr>code_hash = ''0xc5'', hash_type = ''type'', args = ''0x01''\<rparr>,
                      recipient_amount = 7, policy = createCell\<rparr>]\<rparr> ''ckt1bob'' (0::nat)
     = (Inl (RecipientSameWithSenderError ''ckt1bob''), 0)
   \<and> acp_build (\<lambda>opts s w. (Inr (length (recipients opts)), Suc w))
     \<lparr>recipients = [\<lparr>recipient = ''ckt1alice'', sudt = \<lparr>code_hash = ''0xc5'', hash_type = ''type'', args = ''0x01''\<rparr>,
                      recipient_amount = 5, policy = findAcp\<rparr>]\<rparr> ''ckt1bob'' (0::nat)
     = (Inr 1, 1)"
  using acp_build_recipient_same_with_sender
      [of "\<lparr>recipients = [\<lparr>recipient = ''ckt1alice'', sudt = \<lparr>code_hash = ''0xc5'', hash_type = ''type'', args = ''0x01''\<rparr>,
                      recipient_amount = 5, policy = findAcp\<rparr>,
                    \<lparr>recipient = ''ckt1bob'', sudt = \<lparr>code_hash = ''0xc5'', hash_type = ''type'', args = ''0x01''\<rparr>,
                      recipient_amount = 7, policy = createCell\<rparr>]\<rparr>" "''ckt1bob''"
          "\<lambda>opts s w. (Inr (length (recipients opts)), Suc w)" "0::nat"]
    acp_build_recipient_same_with_sender
      [of "\<lparr>recipients = [\<lparr>recipient = ''ckt1alice'', sudt = \<lparr>code_hash = ''0xc5'', hash_type = ''type'', args = ''0x01''\<rparr>,
                      recipient_amount = 5, policy = findAcp\<rparr>]\<rparr>" "''ckt1bob''"
          "\<lambda>opts s w. (Inr (length (recipients opts)), Suc w)" "0::nat"]
  by simp

end
